theory Spec2Isabelle
  imports Main "HOL-Library.AList" "HOL-Library.Char_ord" "HOL-Library.List_Lexorder"
begin

section \<open>Common Python notions\<close>

text \<open>
  Exceptions are values. The assertion failures of the code base are told apart by the
  \<^verbatim>\<open>assert\<close> statement that raises them.
\<close>

datatype assertion =
    HashMismatch
  | DuplicateDeduplicated
  | NoneStatement
  | EmptyGroup
  | LinkedDuplicate

datatype error =
    AssertionError assertion
  | ValueError
  | IndexError
  | KeyError
  | IntegrityError string
  | BadHashError string
  | Exception

text \<open>\<^verbatim>\<open>str(n)\<close> for an integer: the decimal numeral, with a minus sign when negative.\<close>

definition digit_char :: "nat \<Rightarrow> char" where
  "digit_char d = ''0123456789'' ! d"

fun str_nat :: "nat \<Rightarrow> string" where
  "str_nat n = (if n < 10 then [digit_char n] else str_nat (n div 10) @ [digit_char (n mod 10)])"

declare str_nat.simps [simp del]

definition str_int :: "int \<Rightarrow> string" where
  "str_int i = (if i < 0 then CHR ''-'' # str_nat (nat (- i)) else str_nat (nat i))"

text \<open>\<^verbatim>\<open>xs.index(x)\<close>: the first position of \<^verbatim>\<open>x\<close>, or no position (a \<^verbatim>\<open>ValueError\<close>).\<close>

fun index_of :: "'a list \<Rightarrow> 'a \<Rightarrow> nat option" where
  "index_of [] x = None"
| "index_of (y # ys) x = (if y = x then Some 0 else map_option Suc (index_of ys x))"

text \<open>
  \<^verbatim>\<open>min(xs, key=f)\<close> and \<^verbatim>\<open>max(xs, key=f)\<close>: the first element with the least (greatest)
  key; a \<^verbatim>\<open>ValueError\<close> on an empty sequence.
\<close>

fun py_min :: "('a \<Rightarrow> nat) \<Rightarrow> 'a list \<Rightarrow> error + 'a" where
  "py_min key [] = Inl ValueError"
| "py_min key (x # xs) = Inr (foldl (\<lambda>b a. if key a < key b then a else b) x xs)"

fun py_max :: "('a \<Rightarrow> nat) \<Rightarrow> 'a list \<Rightarrow> error + 'a" where
  "py_max key [] = Inl ValueError"
| "py_max key (x # xs) = Inr (foldl (\<lambda>b a. if key b < key a then a else b) x xs)"

section \<open>The preassembly batch job submitter\<close>

text \<open>
  \<^verbatim>\<open>PreassemblySubmitter\<close>: the fields \<^verbatim>\<open>_get_command\<close> reads. \<^verbatim>\<open>job_base\<close> and
  \<^verbatim>\<open>s3_base\<close> are set by the \<^verbatim>\<open>Submitter\<close> base class, \<^verbatim>\<open>bucket_name\<close> is a constant of
  the reading package; neither is part of this repository, so \<^verbatim>\<open>bucket_name\<close> is a
  parameter of the model.
\<close>

record submitter =
  task :: string
  job_base :: string
  s3_base :: string

text \<open>
  The variadic \<^verbatim>\<open>*args\<close>: two arguments leave \<^verbatim>\<open>continuing\<close> false, three give it.
\<close>

datatype command_args =
    Args2 string int
  | Args3 string int bool

fun unpack_args :: "command_args \<Rightarrow> string \<times> int \<times> bool" where
  "unpack_args (Args2 stmt_type batch_size) = (stmt_type, batch_size, False)"
| "unpack_args (Args3 stmt_type batch_size continuing) = (stmt_type, batch_size, continuing)"

definition get_command ::
  "string \<Rightarrow> submitter \<Rightarrow> string set \<Rightarrow> command_args \<Rightarrow> (string \<times> string list) option" where
  "get_command bucket_name self job_type_set args =
     (case unpack_args args of (stmt_type, batch_size, continuing) \<Rightarrow>
        if task self \<notin> job_type_set then None
        else
          let job_name = job_base self @ ''_'' @ task self @ ''_'' @ stmt_type;
              s3_cache = ''s3://'' @ bucket_name @ ''/'' @ s3_base self @ ''/'' @ job_name;
              cmd = [''python3'', ''-m'', ''indra_db.preassembly.preassemble_db'',
                     task self, ''-n'', ''32'', ''-C'', s3_cache, ''-T'', stmt_type, ''-Y'',
                     ''-b'', str_int batch_size]
          in Some (job_name, if continuing then cmd @ [''-c''] else cmd))"

section \<open>The TAS knowledgebase manager\<close>

text \<open>
  What \<^verbatim>\<open>TasManager\<close> reads of a statement: its matching key and, of each evidence, the
  annotations dict. The statements come from \<^verbatim>\<open>process_csv\<close>, which is not part of this
  repository, so they are the input of \<^verbatim>\<open>_get_statements\<close>.
\<close>

record tas_stmt =
  matches_key :: string
  evidence :: "(string \<rightharpoonup> string) list"

definition get_order_value :: "'a tas_stmt_scheme \<Rightarrow> error + nat" where
  "get_order_value stmt =
     (case evidence stmt of
        [] \<Rightarrow> Inl IndexError
      | annotations # _ \<Rightarrow>
          (case annotations ''class_min'' of
             None \<Rightarrow> Inl KeyError
           | Some cm \<Rightarrow>
               (case index_of [''Kd < 100nM'', ''100nM < Kd < 1uM''] cm of
                  None \<Rightarrow> Inl ValueError
                | Some i \<Rightarrow> Inr i)))"

text \<open>The list comprehension of \<^verbatim>\<open>choose_better\<close>: \<^verbatim>\<open>None\<close> is skipped, an error ends it.\<close>

fun order_pairs :: "'a tas_stmt_scheme option list \<Rightarrow> error + (nat \<times> 'a tas_stmt_scheme) list" where
  "order_pairs [] = Inr []"
| "order_pairs (None # stmts) = order_pairs stmts"
| "order_pairs (Some stmt # stmts) =
     (case get_order_value stmt of
        Inl e \<Rightarrow> Inl e
      | Inr v \<Rightarrow> (case order_pairs stmts of Inl e \<Rightarrow> Inl e | Inr ps \<Rightarrow> Inr ((v, stmt) # ps)))"

definition choose_better :: "'a tas_stmt_scheme option list \<Rightarrow> error + 'a tas_stmt_scheme" where
  "choose_better stmts =
     (case order_pairs stmts of
        Inl e \<Rightarrow> Inl e
      | Inr ps \<Rightarrow> (case py_min fst ps of Inl e \<Rightarrow> Inl e | Inr best_stmt \<Rightarrow> Inr (snd best_stmt)))"

text \<open>
  The loop of \<^verbatim>\<open>_get_statements\<close> over \<^verbatim>\<open>proc.statements\<close>; \<^verbatim>\<open>stmt_dict\<close> is an association
  list in insertion order, as a Python dict is.
\<close>

fun tas_loop ::
  "'a tas_stmt_scheme list \<Rightarrow> (string \<times> 'a tas_stmt_scheme) list \<Rightarrow>
     error + (string \<times> 'a tas_stmt_scheme) list" where
  "tas_loop [] stmt_dict = Inr stmt_dict"
| "tas_loop (s # ss) stmt_dict =
     (let mk = matches_key s in
      case choose_better [Some s, map_of stmt_dict mk] of
        Inl e \<Rightarrow> Inl e
      | Inr b \<Rightarrow> tas_loop ss (AList.update mk b stmt_dict))"

definition get_statements :: "'a tas_stmt_scheme list \<Rightarrow> error + 'a tas_stmt_scheme list" where
  "get_statements proc_statements =
     (case tas_loop proc_statements [] of
        Inl e \<Rightarrow> Inl e
      | Inr stmt_dict \<Rightarrow> Inr (map snd stmt_dict))"

text \<open>Two sample candidates for one matching key.\<close>

definition tas_strong :: tas_stmt where
  "tas_strong = \<lparr>matches_key = ''k'', evidence = [[''class_min'' \<mapsto> ''Kd < 100nM'']]\<rparr>"

definition tas_weak :: tas_stmt where
  "tas_weak = \<lparr>matches_key = ''k'', evidence = [[''class_min'' \<mapsto> ''100nM < Kd < 1uM'']]\<rparr>"

text \<open>
  The loop invariant of \<^verbatim>\<open>_get_statements\<close>: the dict holds, for every key seen so far, a
  seen statement of that key whose order value is least among the seen ones of that key.
\<close>

definition tas_inv :: "'a tas_stmt_scheme list \<Rightarrow> (string \<times> 'a tas_stmt_scheme) list \<Rightarrow> bool" where
  "tas_inv seen d \<longleftrightarrow>
     distinct (map fst d) \<and>
     (\<forall>s \<in> set seen. \<exists>b. map_of d (matches_key s) = Some b) \<and>
     (\<forall>k b. map_of d k = Some b \<longrightarrow> matches_key b = k \<and> b \<in> set seen \<and>
        (\<forall>s \<in> set seen. matches_key s = k \<longrightarrow>
           (\<exists>i j. get_order_value b = Inr i \<and> get_order_value s = Inr j \<and> i \<le> j)))"

section \<open>The dump listing\<close>

text \<open>
  Modelled from the spec: \<^verbatim>\<open>list_dumps\<close> of the dump manager, whose module is not among the
  sources (only its test is). The spec: a dump is identified by a date-stamp string and
  stored under the key prefix \<^verbatim>\<open><dump-root-prefix>/<date-stamp>/\<close>, holding one object per
  stage name; \<^verbatim>\<open>list_dumps(started=None, ended=None)\<close> "lists all date-stamped prefixes under
  the dump root, optionally filtered to only those containing a start marker and/or
  filtered by presence/absence of an end marker; returns them as object-storage path
  handles ordered by date-stamp ascending". The object store under the dump root is the
  list of its objects, each a date stamp with a stage name.
\<close>

record s3_path =
  s3_bucket :: string
  s3_key :: string

type_synonym dump_store = "(string \<times> string) list"

definition dump_path :: "s3_path \<Rightarrow> string \<Rightarrow> s3_path" where
  "dump_path root date_stamp =
     \<lparr>s3_bucket = s3_bucket root, s3_key = s3_key root @ ''/'' @ date_stamp @ ''/''\<rparr>"

definition has_marker :: "dump_store \<Rightarrow> string \<Rightarrow> string \<Rightarrow> bool" where
  "has_marker store date_stamp stage \<longleftrightarrow> (date_stamp, stage) \<in> set store"

text \<open>
  Modelled from the spec: the two optional filters of \<^verbatim>\<open>list_dumps\<close>. \<^verbatim>\<open>started\<close>, when true,
  keeps only the dumps that contain a \<^verbatim>\<open>start\<close> marker; \<^verbatim>\<open>ended\<close>, when given, keeps the
  dumps whose \<^verbatim>\<open>end\<close> marker is present (true) or absent (false).
\<close>

definition dump_selected :: "dump_store \<Rightarrow> bool option \<Rightarrow> bool option \<Rightarrow> string \<Rightarrow> bool" where
  "dump_selected store started ended d \<longleftrightarrow>
     (case started of Some True \<Rightarrow> has_marker store d ''start'' | _ \<Rightarrow> True) \<and>
     (case ended of None \<Rightarrow> True | Some e \<Rightarrow> has_marker store d ''end'' = e)"

text \<open>
  Modelled from the spec: \<^verbatim>\<open>list_dumps\<close> itself, the selected date stamps in ascending
  order, each as the path handle of its prefix.
\<close>

definition list_dumps :: "s3_path \<Rightarrow> dump_store \<Rightarrow> bool option \<Rightarrow> bool option \<Rightarrow> s3_path list" where
  "list_dumps root store started ended =
     map (dump_path root)
       (sort (remdups (filter (dump_selected store started ended) (map fst store))))"

text \<open>The three dump directories that \<^verbatim>\<open>test_list_dumps\<close> builds.\<close>

definition test_store :: dump_store where
  "test_store = [(''2020-01-01'', ''start''), (''2020-02-01'', ''start''),
                 (''2020-02-01'', ''end''), (''2020-03-01'', ''sif'')]"

definition test_root :: s3_path where
  "test_root = \<lparr>s3_bucket = ''bigmech'', s3_key = ''indra-db/dumps''\<rparr>"

section \<open>Regular expressions, as the backtracking matcher runs them\<close>

text \<open>
  Strings are lists of characters with code points below 256. A pattern of Python's
  \<^verbatim>\<open>re\<close> module is written with one combinator for each construct, each taking the matcher
  of the rest of the pattern as its continuation: the first alternative that lets the rest
  match is the one taken, as in the backtracking engine.

  \<^verbatim>\<open>re_lit p\<close> is the literal text \<^verbatim>\<open>p\<close>.
\<close>

definition re_lit :: "string \<Rightarrow> (string \<Rightarrow> 'r option) \<Rightarrow> string \<Rightarrow> 'r option" where
  "re_lit p k s = (if take (length p) s = p then k (drop (length p) s) else None)"

text \<open>\<^verbatim>\<open>.*?\<close>: as few characters as possible, none of them a newline.\<close>

fun re_lazy_dot :: "(string \<Rightarrow> 'r option) \<Rightarrow> string \<Rightarrow> 'r option" where
  "re_lazy_dot k [] = k []"
| "re_lazy_dot k (c # cs) =
     (case k (c # cs) of
        Some r \<Rightarrow> Some r
      | None \<Rightarrow> if c = CHR 0x0A then None else re_lazy_dot k cs)"

text \<open>
  A greedy capturing group \<^verbatim>\<open>(C*)\<close> over a character class \<^verbatim>\<open>C\<close>: as many characters as
  possible, giving one back at a time while the rest fails. The continuation gets the
  captured text. \<^verbatim>\<open>(C+)\<close> wants one character at least.
\<close>

fun re_greedy ::
  "(char \<Rightarrow> bool) \<Rightarrow> (string \<Rightarrow> string \<Rightarrow> 'r option) \<Rightarrow> string \<Rightarrow> string \<Rightarrow> 'r option" where
  "re_greedy P k acc [] = k acc []"
| "re_greedy P k acc (c # cs) =
     (if P c
      then (case re_greedy P k (acc @ [c]) cs of Some r \<Rightarrow> Some r | None \<Rightarrow> k acc (c # cs))
      else k acc (c # cs))"

definition re_greedy1 ::
  "(char \<Rightarrow> bool) \<Rightarrow> (string \<Rightarrow> string \<Rightarrow> 'r option) \<Rightarrow> string \<Rightarrow> 'r option" where
  "re_greedy1 P k s =
     (case s of [] \<Rightarrow> None | c # cs \<Rightarrow> if P c then re_greedy P k [c] cs else None)"

text \<open>\<^verbatim>\<open>$\<close> at the end of a pattern: the end of the string, or just before a last newline.\<close>

definition re_end :: "'r \<Rightarrow> string \<Rightarrow> 'r option" where
  "re_end r s = (if s = [] \<or> s = [CHR 0x0A] then Some r else None)"

text \<open>\<^verbatim>\<open>\d\<close>, among the characters below 256: the ten ASCII digits.\<close>

definition is_digit :: "char \<Rightarrow> bool" where
  "is_digit c \<longleftrightarrow> c \<in> set ''0123456789''"

section \<open>The curation service: submitting a curation\<close>

text \<open>
  The pattern of \<^verbatim>\<open>submit_curation\<close>, matched with \<^verbatim>\<open>re.match\<close> (anchored at the start):
  \<^verbatim>\<open>DETAIL: .*?\(pa_hash\)=\((\d+)\).*?not present.*?pa.*?\<close>. The result is the group.
\<close>

definition bad_hash_re :: "string \<Rightarrow> string option" where
  "bad_hash_re =
     re_lit ''DETAIL: '' (re_lazy_dot (re_lit ''(pa_hash)=('' (re_greedy1 is_digit (\<lambda>h.
       re_lit '')'' (re_lazy_dot (re_lit ''not present'' (re_lazy_dot (re_lit ''pa''
         (re_lazy_dot (\<lambda>rest. Some h))))))))))"

text \<open>
  \<^verbatim>\<open>str.splitlines()\<close>: the line boundaries below 256 are LF, VT, FF, CR, FS, GS, RS and NEL,
  and CR LF counts as one; a final line break opens no further line.
\<close>

definition is_linebreak :: "char \<Rightarrow> bool" where
  "is_linebreak c \<longleftrightarrow>
     c \<in> {CHR 0x0A, CHR 0x0B, CHR 0x0C, CHR 0x0D, CHR 0x1C, CHR 0x1D, CHR 0x1E, CHR 0x85}"

fun splitlines_from :: "string \<Rightarrow> string \<Rightarrow> string list" where
  "splitlines_from cur [] = (if cur = [] then [] else [cur])"
| "splitlines_from cur [c] = (if is_linebreak c then [cur] else [cur @ [c]])"
| "splitlines_from cur (c # d # cs) =
     (if c = CHR 0x0D \<and> d = CHR 0x0A then cur # splitlines_from [] cs
      else if is_linebreak c then cur # splitlines_from [] (d # cs)
      else splitlines_from (cur @ [c]) (d # cs))"

definition splitlines :: "string \<Rightarrow> string list" where
  "splitlines s = splitlines_from [] s"

text \<open>
  \<^verbatim>\<open>int(h)\<close> on a string: the value of a nonempty string of digits. (The other literals
  \<^verbatim>\<open>int\<close> reads, with a sign, blanks or underscores, cannot come out of \<^verbatim>\<open>\d+\<close>.)
\<close>

definition digit_val :: "char \<Rightarrow> nat" where
  "digit_val c = of_char c - 48"

definition digits_value :: "string \<Rightarrow> int" where
  "digits_value s = foldl (\<lambda>a c. 10 * a + int (digit_val c)) 0 s"

definition py_int :: "string \<Rightarrow> error + int" where
  "py_int s = (if s \<noteq> [] \<and> (\<forall>c \<in> set s. is_digit c) then Inr (digits_value s)
               else Inl ValueError)"

text \<open>
  The row \<^verbatim>\<open>submit_curation\<close> inserts. The database layer is not part of this repository:
  \<^verbatim>\<open>db.insert(db.Curation, **inp)\<close> is the parameter \<^verbatim>\<open>db_insert\<close>, which returns the new row's
  id or raises; \<^verbatim>\<open>IntegrityError msg\<close> carries \<^verbatim>\<open>e.args[0]\<close>.
\<close>

record curation_inp =
  cur_tag :: string
  cur_text :: "string option"
  cur_curator :: string
  cur_ip :: string
  cur_source :: string
  cur_pa_hash :: int
  cur_source_hash :: "int option"

definition submit_curation ::
  "(curation_inp \<Rightarrow> error + int) \<Rightarrow> int \<Rightarrow> string \<Rightarrow> string \<Rightarrow> string \<Rightarrow> string option \<Rightarrow>
     int option \<Rightarrow> string \<Rightarrow> error + int" where
  "submit_curation db_insert hash_val tag curator ip text ev_hash source =
     (let inp = \<lparr>cur_tag = tag, cur_text = text, cur_curator = curator, cur_ip = ip,
                  cur_source = source, cur_pa_hash = hash_val, cur_source_hash = ev_hash\<rparr>
      in case db_insert inp of
           Inr dbid \<Rightarrow> Inr dbid
         | Inl (IntegrityError msg) \<Rightarrow>
             (case splitlines msg of
                first_line # detail_line # more_lines \<Rightarrow>
                  (case bad_hash_re detail_line of
                     None \<Rightarrow> Inl (IntegrityError msg)
                   | Some h \<Rightarrow>
                       (case py_int h of
                          Inl e \<Rightarrow> Inl e
                        | Inr n \<Rightarrow>
                            if n = hash_val then Inl (BadHashError h)
                            else Inl (AssertionError HashMismatch)))
              | _ \<Rightarrow> Inl IndexError)
         | Inl e \<Rightarrow> Inl e)"

text \<open>
  The shape of a detail line that the pattern describes:
  \<^verbatim>\<open>DETAIL: ... (pa_hash)=(<digits>) ... not present ... pa ...\<close>.
\<close>

definition detail_form :: "string \<Rightarrow> string \<Rightarrow> bool" where
  "detail_form line h \<longleftrightarrow>
     h \<noteq> [] \<and> (\<forall>c \<in> set h. is_digit c) \<and>
     (\<exists>a b c d. line = ''DETAIL: '' @ a @ ''(pa_hash)=('' @ h @ '')'' @ b @ ''not present'' @ c @
                        ''pa'' @ d)"

text \<open>
  Sample error messages: a foreign key violation on \<^verbatim>\<open>pa_hash\<close> as the database words it,
  a violation of another constraint, and an insertion that fails with a given message.
\<close>

definition fk_message :: "string \<Rightarrow> string" where
  "fk_message h =
     ''insert or update on table curation violates foreign key constraint'' @ [CHR 0x0A] @
     ''DETAIL:  Key (pa_hash)=('' @ h @ '') is not present in table pa_statements.'' @ [CHR 0x0A]"

definition unique_message :: string where
  "unique_message =
     ''duplicate key value violates unique constraint curation_pkey'' @ [CHR 0x0A] @
     ''DETAIL:  Key (id)=(3) already exists.'' @ [CHR 0x0A]"

definition failing_insert :: "string \<Rightarrow> curation_inp \<Rightarrow> error + int" where
  "failing_insert msg inp = Inl (IntegrityError msg)"

section \<open>The curation service: grounding curations\<close>

text \<open>
  \<^verbatim>\<open>str.strip()\<close>: the characters below 256 that Python counts as whitespace are taken off
  both ends.
\<close>

definition py_isspace :: "char \<Rightarrow> bool" where
  "py_isspace c \<longleftrightarrow>
     c \<in> {CHR 0x09, CHR 0x0A, CHR 0x0B, CHR 0x0C, CHR 0x0D, CHR 0x1C, CHR 0x1D, CHR 0x1E, CHR 0x1F,
          CHR 0x20, CHR 0x85, CHR 0xA0}"

definition py_strip :: "string \<Rightarrow> string" where
  "py_strip s = rev (dropWhile py_isspace (rev (dropWhile py_isspace s)))"

text \<open>
  The pattern of \<^verbatim>\<open>get_grounding_curations\<close>, matched with \<^verbatim>\<open>re.match\<close>:
  \<^verbatim>\<open>^\[(.*)\] -> ([^ ]+)$\<close>. The result is the pair of its groups.
\<close>

definition grounding_re :: "string \<Rightarrow> (string \<times> string) option" where
  "grounding_re =
     re_lit ''['' (re_greedy (\<lambda>c. c \<noteq> CHR 0x0A) (\<lambda>txt.
       re_lit ''] -> '' (re_greedy1 (\<lambda>c. c \<noteq> CHR '' '') (\<lambda>dbid_str.
         re_end (txt, dbid_str)))) [])"

text \<open>\<^verbatim>\<open>s.split(sep)\<close> for a separator of one character, and \<^verbatim>\<open>s.split(sep, maxsplit=1)\<close>.\<close>

fun split_char :: "char \<Rightarrow> string \<Rightarrow> string list" where
  "split_char sep [] = [[]]"
| "split_char sep (c # cs) =
     (if c = sep then [] # split_char sep cs
      else (case split_char sep cs of [] \<Rightarrow> [[c]] | x # xs \<Rightarrow> (c # x) # xs))"

definition split_first :: "char \<Rightarrow> string \<Rightarrow> string list" where
  "split_first sep s =
     (if sep \<in> set s then [takeWhile (\<lambda>c. c \<noteq> sep) s, tl (dropWhile (\<lambda>c. c \<noteq> sep) s)]
      else [s])"

text \<open>
  The dict comprehension \<^verbatim>\<open>{k: v for k, v in dbid_entries}\<close>: an entry that is not a pair
  raises, which the \<^verbatim>\<open>except\<close> clause turns into skipping the curation (\<^verbatim>\<open>None\<close> here).
\<close>

fun dict_of_entries ::
  "string list list \<Rightarrow> (string \<rightharpoonup> string) \<Rightarrow> (string \<rightharpoonup> string) option" where
  "dict_of_entries [] dbids = Some dbids"
| "dict_of_entries ([k, v] # entries) dbids = dict_of_entries entries (dbids(k \<mapsto> v))"
| "dict_of_entries (entry # entries) dbids = None"

definition parse_dbids :: "string \<Rightarrow> (string \<rightharpoonup> string) option" where
  "parse_dbids dbid_str =
     dict_of_entries (map (split_first CHR '':'') (split_char CHR ''|'' dbid_str)) Map.empty"

text \<open>
  The body of the loop of \<^verbatim>\<open>get_grounding_curations\<close> up to its last statement: what a
  curation contributes, or nothing where the body says \<^verbatim>\<open>continue\<close>. The rows of the
  \<^verbatim>\<open>Curation\<close> table have the fields of \<^verbatim>\<open>curation_inp\<close>.
\<close>

definition grounding_entry ::
  "'a curation_inp_scheme \<Rightarrow> (string \<times> (string \<rightharpoonup> string)) option" where
  "grounding_entry cur =
     (case cur_text cur of
        None \<Rightarrow> None
      | Some t \<Rightarrow>
          if t = [] then None
          else (case grounding_re (py_strip t) of
                  None \<Rightarrow> None
                | Some (txt, dbid_str) \<Rightarrow>
                    (case parse_dbids dbid_str of
                       None \<Rightarrow> None
                     | Some dbids \<Rightarrow> Some (txt, dbids))))"

fun grounding_loop ::
  "'a curation_inp_scheme list \<Rightarrow> (string \<rightharpoonup> (string \<rightharpoonup> string)) \<Rightarrow>
     (string \<rightharpoonup> (string \<rightharpoonup> string))" where
  "grounding_loop [] groundings = groundings"
| "grounding_loop (cur # curs) groundings =
     (case grounding_entry cur of
        None \<Rightarrow> grounding_loop curs groundings
      | Some (txt, dbids) \<Rightarrow> grounding_loop curs (groundings(txt \<mapsto> dbids)))"

text \<open>
  \<^verbatim>\<open>get_curations(db=db, tag='grounding')\<close>: its one keyword parameter becomes the constraint
  \<^verbatim>\<open>cur.tag == 'grounding'\<close>; the database is the list of its curation rows, in the order in
  which it yields them.
\<close>

definition get_curations_tag ::
  "'a curation_inp_scheme list \<Rightarrow> string \<Rightarrow> 'a curation_inp_scheme list" where
  "get_curations_tag db t = filter (\<lambda>cur. cur_tag cur = t) db"

definition get_grounding_curations ::
  "'a curation_inp_scheme list \<Rightarrow> (string \<rightharpoonup> (string \<rightharpoonup> string))" where
  "get_grounding_curations db = grounding_loop (get_curations_tag db ''grounding'') Map.empty"

text \<open>The pair that an entry \<^verbatim>\<open>ns:id\<close> of the ID list stands for, split at its first colon.\<close>

definition ns_id :: "string \<Rightarrow> string \<times> string" where
  "ns_id entry =
     (takeWhile (\<lambda>c. c \<noteq> CHR '':'') entry, tl (dropWhile (\<lambda>c. c \<noteq> CHR '':'') entry))"

text \<open>Sample curations.\<close>

definition grounding_cur :: "string \<Rightarrow> curation_inp" where
  "grounding_cur t =
     \<lparr>cur_tag = ''grounding'', cur_text = Some t, cur_curator = ''curator'',
      cur_ip = ''127.0.0.1'', cur_source = ''direct_client'', cur_pa_hash = 1,
      cur_source_hash = None\<rparr>"

definition sample_curations :: "curation_inp list" where
  "sample_curations =
     [grounding_cur ''[fever] -> TEXT:pyrexia'',
      (grounding_cur ''[fever] -> MESH:D000000'')\<lparr>cur_tag := ''correct''\<rparr>,
      grounding_cur ''  [fever] -> MESH:D005334|TEXT:fever  '',
      grounding_cur ''fever is MESH:D005334'',
      grounding_cur ''[fever] -> MESH'']"

section \<open>The distillation of raw statements\<close>

text \<open>
  The module \<^verbatim>\<open>indra_db/util/distill_statements.py\<close>. Python sets are lists here, read up to
  order and repetition; the sets a function returns are HOL sets. Which member \<^verbatim>\<open>set.pop()\<close>
  returns is left to the hash table, so every function that pops takes the choice \<^verbatim>\<open>pop\<close> as
  an argument.
\<close>

subsection \<open>Exact duplicates among the statements of one reading\<close>

text \<open>
  A statement tuple \<^verbatim>\<open>(sid, stmt)\<close>: the statement is \<^verbatim>\<open>None\<close> when only ids are wanted.
\<close>

type_synonym 's stmt_tpl = "int \<times> 's option"

text \<open>
  \<^verbatim>\<open>len\<close> of a set given as a list.
\<close>

definition py_len :: "'a list \<Rightarrow> nat" where
  "py_len xs = length (remdups xs)"

text \<open>
  The loop of \<^verbatim>\<open>_detect_exact_duplicates\<close> over the sets of statement tuples that share a
  hash, with the two accumulators \<^verbatim>\<open>stmt_tpls\<close> and \<^verbatim>\<open>some_duplicate_tpls\<close>. The final branch is
  \<^verbatim>\<open>assert False\<close>.
\<close>

fun detect_exact_duplicates_loop ::
  "('s stmt_tpl list \<Rightarrow> 's stmt_tpl) \<Rightarrow> 's stmt_tpl list list \<Rightarrow> int set \<Rightarrow>
     's stmt_tpl set \<times> 's stmt_tpl set \<Rightarrow> error + ('s stmt_tpl set \<times> 's stmt_tpl set)" where
  "detect_exact_duplicates_loop pop [] linked_sids (stmt_tpls, some_duplicate_tpls) =
     Inr (stmt_tpls, some_duplicate_tpls)"
| "detect_exact_duplicates_loop pop (stmt_tpl_set # itr) linked_sids (stmt_tpls, some_duplicate_tpls) =
     (if py_len stmt_tpl_set = 0 then
        detect_exact_duplicates_loop pop itr linked_sids (stmt_tpls, some_duplicate_tpls)
      else if py_len stmt_tpl_set = 1 then
        detect_exact_duplicates_loop pop itr linked_sids
          (stmt_tpls \<union> set stmt_tpl_set, some_duplicate_tpls)
      else
        let prefed_tpls = filter (\<lambda>tpl. fst tpl \<in> linked_sids) stmt_tpl_set in
        if py_len prefed_tpls = 0 then
          let chosen = pop stmt_tpl_set in
          detect_exact_duplicates_loop pop itr linked_sids
            (insert chosen stmt_tpls, some_duplicate_tpls \<union> (set stmt_tpl_set - {chosen}))
        else if py_len prefed_tpls = 1 then
          detect_exact_duplicates_loop pop itr linked_sids
            (stmt_tpls \<union> set prefed_tpls,
             some_duplicate_tpls \<union> (set stmt_tpl_set - set prefed_tpls))
        else Inl (AssertionError DuplicateDeduplicated))"

definition detect_exact_duplicates ::
  "('s stmt_tpl list \<Rightarrow> 's stmt_tpl) \<Rightarrow> 's stmt_tpl list list \<Rightarrow> int set \<Rightarrow>
     error + ('s stmt_tpl set \<times> 's stmt_tpl set)" where
  "detect_exact_duplicates pop stmt_set_itr linked_sids =
     detect_exact_duplicates_loop pop stmt_set_itr linked_sids ({}, {})"

subsection \<open>Exact duplicates among the statements of the knowledge bases\<close>

text \<open>
  What the filters return for a kept statement: the statement itself, or its id.
\<close>

datatype 's kept_stmt = Stmt 's | Sid int

text \<open>
  A row \<^verbatim>\<open>(mk_hash, id, json)\<close> of the query of \<^verbatim>\<open>get_filtered_db_stmts\<close>; the third column is
  only there when full statements are asked for.
\<close>

type_synonym 'j db_row = "int \<times> int \<times> 'j option"

definition row_id :: "'j db_row \<Rightarrow> int" where
  "row_id tpl = fst (snd tpl)"

definition row_json :: "'j db_row \<Rightarrow> 'j option" where
  "row_json tpl = snd (snd tpl)"

text \<open>
  The first half of \<^verbatim>\<open>_choose_unique\<close>: the tuple chosen from a group and the ids reported as
  duplicates. The group must not be empty (an assertion); more than one preferred tuple is
  \<^verbatim>\<open>assert False\<close>.
\<close>

definition choose_tpl ::
  "('j db_row list \<Rightarrow> 'j db_row) \<Rightarrow> int set \<Rightarrow> 'j db_row list \<Rightarrow> error + ('j db_row \<times> int set)" where
  "choose_tpl pop not_duplicates stmt_tpl_grp =
     (if stmt_tpl_grp = [] then Inl (AssertionError EmptyGroup)
      else if length stmt_tpl_grp = 1 then Inr (hd stmt_tpl_grp, {})
      else
        let stmt_tpl_set = remdups stmt_tpl_grp;
            preferred_tpls = filter (\<lambda>tpl. row_id tpl \<in> not_duplicates) stmt_tpl_set
        in if py_len preferred_tpls = 0 then
             let s_tpl = pop stmt_tpl_set in
             Inr (s_tpl, row_id ` {tpl \<in> set stmt_tpl_set - {s_tpl}. row_id tpl \<notin> not_duplicates})
           else if py_len preferred_tpls = 1 then
             Inr (pop preferred_tpls,
                  row_id ` {tpl \<in> set stmt_tpl_set. row_id tpl \<notin> not_duplicates})
           else Inl (AssertionError DuplicateDeduplicated))"

text \<open>
  \<^verbatim>\<open>_choose_unique\<close>: the statement is rebuilt from the third column, which a row of two columns
  does not have (an \<^verbatim>\<open>IndexError\<close>), or the id is returned.
\<close>

definition choose_unique ::
  "('j db_row list \<Rightarrow> 'j db_row) \<Rightarrow> ('j \<Rightarrow> 's) \<Rightarrow> int set \<Rightarrow> bool \<Rightarrow> 'j db_row list \<Rightarrow>
     error + ('s kept_stmt \<times> int set)" where
  "choose_unique pop from_json not_duplicates get_full_stmts stmt_tpl_grp =
     (case choose_tpl pop not_duplicates stmt_tpl_grp of
        Inl e \<Rightarrow> Inl e
      | Inr (s_tpl, duplicate_ids) \<Rightarrow>
          if get_full_stmts then
            (case row_json s_tpl of
               None \<Rightarrow> Inl IndexError
             | Some stmt_json \<Rightarrow> Inr (Stmt (from_json stmt_json), duplicate_ids))
          else Inr (Sid (row_id s_tpl), duplicate_ids))"

text \<open>
  \<^verbatim>\<open>itertools.groupby\<close>: the maximal runs of consecutive elements with the same key.
\<close>

function groupby :: "('a \<Rightarrow> 'k) \<Rightarrow> 'a list \<Rightarrow> 'a list list" where
  "groupby f [] = []"
| "groupby f (x # xs) =
     (x # takeWhile (\<lambda>y. f y = f x) xs) # groupby f (dropWhile (\<lambda>y. f y = f x) xs)"
  by pat_completeness auto

termination
  by (relation "measure (\<lambda>(f, xs). length xs)") (auto simp: length_dropWhile_le less_Suc_eq_le)

subsection \<open>The tables of the database\<close>

text \<open>
  Modelled from the spec: the database manager and its tables are not part of the module. Only
  the columns the module reads or deletes by are kept; a query is a filter over the list of rows.
\<close>

record 'j raw_statement =
  rs_id :: int
  rs_mk_hash :: int
  rs_json :: 'j
  rs_db_info_id :: "int option"
  rs_reading_id :: "int option"

record reading =
  rd_id :: int
  rd_text_content_id :: int
  rd_reader_version :: string

record text_content =
  tc_id :: int
  tc_text_ref_id :: int
  tc_source :: string

record text_ref =
  tr_id :: int

record raw_unique_link =
  rul_raw_stmt_id :: int
  rul_pa_stmt_mk_hash :: int

record raw_agent =
  ra_stmt_id :: int

record 'j database =
  raw_statements :: "'j raw_statement list"
  readings :: "reading list"
  text_contents :: "text_content list"
  text_refs :: "text_ref list"
  raw_unique_links :: "raw_unique_link list"
  raw_agents :: "raw_agent list"

text \<open>
  The query of \<^verbatim>\<open>get_filtered_db_stmts\<close>: the raw statements with a \<^verbatim>\<open>db_info_id\<close> that satisfy the
  clauses, ordered by \<^verbatim>\<open>mk_hash\<close>.
\<close>

definition db_stmt_query ::
  "'j database \<Rightarrow> bool \<Rightarrow> ('j raw_statement \<Rightarrow> bool) \<Rightarrow> 'j db_row list" where
  "db_stmt_query db get_full_stmts clauses =
     sort_key fst
       (map (\<lambda>r. (rs_mk_hash r, rs_id r, if get_full_stmts then Some (rs_json r) else None))
          (filter (\<lambda>r. rs_db_info_id r \<noteq> None \<and> clauses r) (raw_statements db)))"

text \<open>
  The loop of the single-process path.
\<close>

fun db_seq_loop ::
  "('g \<Rightarrow> error + ('k \<times> int set)) \<Rightarrow> 'g list \<Rightarrow> 'k set \<times> int set \<Rightarrow> error + ('k set \<times> int set)" where
  "db_seq_loop choose_unique_stmt [] (stmts, duplicate_ids) = Inr (stmts, duplicate_ids)"
| "db_seq_loop choose_unique_stmt (stmt_list # stmt_groups) (stmts, duplicate_ids) =
     (case choose_unique_stmt stmt_list of
        Inl e \<Rightarrow> Inl e
      | Inr (stmt, some_duplicates) \<Rightarrow>
          db_seq_loop choose_unique_stmt stmt_groups
            (insert stmt stmts, duplicate_ids \<union> some_duplicates))"

text \<open>
  \<^verbatim>\<open>Pool.map\<close>: the results in the order of the inputs, or the exception of a worker.
\<close>

fun pool_map :: "('g \<Rightarrow> error + 'r) \<Rightarrow> 'g list \<Rightarrow> error + 'r list" where
  "pool_map f [] = Inr []"
| "pool_map f (x # xs) =
     (case f x of
        Inl e \<Rightarrow> Inl e
      | Inr y \<Rightarrow> (case pool_map f xs of Inl e \<Rightarrow> Inl e | Inr ys \<Rightarrow> Inr (y # ys)))"

text \<open>
  \<^verbatim>\<open>get_filtered_db_stmts\<close>. A pool of fewer than one process is a \<^verbatim>\<open>ValueError\<close>; so is the
  unpacking of the zipped results into \<^verbatim>\<open>stmt_list, duplicate_sets\<close> when \<^verbatim>\<open>res\<close> is empty,
  since \<^verbatim>\<open>zip()\<close> yields nothing to unpack.
\<close>

definition get_filtered_db_stmts ::
  "('j db_row list \<Rightarrow> 'j db_row) \<Rightarrow> ('j \<Rightarrow> 's) \<Rightarrow> 'j database \<Rightarrow> bool \<Rightarrow>
     ('j raw_statement \<Rightarrow> bool) \<Rightarrow> int set \<Rightarrow> int \<Rightarrow> error + ('s kept_stmt set \<times> int set)" where
  "get_filtered_db_stmts pop from_json db get_full_stmts clauses not_duplicates num_procs =
     (let db_stmt_data = db_stmt_query db get_full_stmts clauses;
          choose_unique_stmt = choose_unique pop from_json not_duplicates get_full_stmts;
          stmt_groups = groupby fst db_stmt_data
      in if num_procs = 1 then db_seq_loop choose_unique_stmt stmt_groups ({}, {})
         else if num_procs < 1 then Inl ValueError
         else (case pool_map choose_unique_stmt stmt_groups of
                 Inl e \<Rightarrow> Inl e
               | Inr res \<Rightarrow>
                   if res = [] then Inl ValueError
                   else Inr (set (map fst res), \<Union> (set (map snd res)))))"

subsection \<open>The nested dictionary of reading statements\<close>

text \<open>
  Modelled from the spec: the nested dictionary class is not part of the module. It is a keyed
  tree with a fixed schema of levels: text ref, source, text content, reader, reader version,
  reading, statement hash, and at the leaves the sets of statement tuples. Each level is an
  association list; \<^verbatim>\<open>get_leaves\<close> collects the tuples below a node, and \<^verbatim>\<open>gets\<close> lists the
  dictionaries stored under a reader name, which in this schema sit at the reader level.
\<close>

type_synonym 's s_dict = "(int \<times> 's stmt_tpl list) list"

type_synonym 's r_dict = "(int \<times> 's s_dict) list"

type_synonym 's rv_dict = "(string \<times> 's r_dict) list"

type_synonym 's reader_dict = "(string \<times> 's rv_dict) list"

type_synonym 's tc_dict = "(int \<times> 's reader_dict) list"

type_synonym 's src_dict = "(string \<times> 's tc_dict) list"

type_synonym 's stmt_nd = "(int \<times> 's src_dict) list"

definition leaves_s :: "'s s_dict \<Rightarrow> 's stmt_tpl set" where
  "leaves_s d = (\<Union>kv \<in> set d. set (snd kv))"

definition leaves_r :: "'s r_dict \<Rightarrow> 's stmt_tpl set" where
  "leaves_r d = (\<Union>kv \<in> set d. leaves_s (snd kv))"

definition leaves_rv :: "'s rv_dict \<Rightarrow> 's stmt_tpl set" where
  "leaves_rv d = (\<Union>kv \<in> set d. leaves_r (snd kv))"

definition leaves_reader :: "'s reader_dict \<Rightarrow> 's stmt_tpl set" where
  "leaves_reader d = (\<Union>kv \<in> set d. leaves_rv (snd kv))"

definition leaves_tc :: "'s tc_dict \<Rightarrow> 's stmt_tpl set" where
  "leaves_tc d = (\<Union>kv \<in> set d. leaves_reader (snd kv))"

definition gets_reader :: "string \<Rightarrow> 's src_dict \<Rightarrow> 's rv_dict list" where
  "gets_reader reader src_dict =
     concat (map (\<lambda>(src, tc_d). concat (map (\<lambda>(tcid, reader_d).
       case map_of reader_d reader of None \<Rightarrow> [] | Some rv_d \<Rightarrow> [rv_d]) tc_d)) src_dict)"

text \<open>
  The two tables of preference of the module: later in the list is better.
\<close>

definition reader_versions :: "(string \<times> string list) list" where
  "reader_versions =
     [(''sparser'', [''sept14-linux'' @ [CHR 0x0A], ''sept14-linux'', ''June2018-linux'',
                     ''October2018-linux'']),
      (''reach'', [''61059a-biores-e9ee36'', ''1.3.3-61059a-biores-''])]"

definition text_content_sources :: "string list" where
  "text_content_sources = [''pubmed'', ''elsevier'', ''manuscripts'', ''pmc_oa'']"

subsection \<open>Filtering the reading statements\<close>

text \<open>
  \<^verbatim>\<open>min\<close> and \<^verbatim>\<open>max\<close> with a key that is a position in a list: the key is computed for every
  element, so one element that is not in the list is a \<^verbatim>\<open>ValueError\<close>.
\<close>

definition py_min_key :: "('a \<Rightarrow> nat option) \<Rightarrow> 'a list \<Rightarrow> error + 'a" where
  "py_min_key f xs =
     (if \<exists>x \<in> set xs. f x = None then Inl ValueError else py_min (\<lambda>x. the (f x)) xs)"

definition py_max_key :: "('a \<Rightarrow> nat option) \<Rightarrow> 'a list \<Rightarrow> error + 'a" where
  "py_max_key f xs =
     (if \<exists>x \<in> set xs. f x = None then Inl ValueError else py_max (\<lambda>x. the (f x)) xs)"

definition better_func :: "string \<Rightarrow> nat option" where
  "better_func element = index_of text_content_sources element"

lemma foldl_min_mem: "foldl (\<lambda>b a. if P a b then a else b) x xs \<in> set (x # xs)"
  by (induction xs arbitrary: x) auto

lemma py_min_mem: "py_min f xs = Inr w \<Longrightarrow> w \<in> set xs"
  using foldl_min_mem [of "\<lambda>a b. f a < f b"] by (cases xs) auto

lemma py_max_mem: "py_max f xs = Inr w \<Longrightarrow> w \<in> set xs"
  using foldl_min_mem [of "\<lambda>a b. f b < f a"] by (cases xs) auto

lemma py_min_key_mem: "py_min_key f xs = Inr w \<Longrightarrow> w \<in> set xs"
  by (auto simp: py_min_key_def dest: py_min_mem split: if_splits)

lemma py_max_key_mem: "py_max_key f xs = Inr w \<Longrightarrow> w \<in> set xs"
  by (auto simp: py_max_key_def dest: py_max_mem split: if_splits)

lemma length_filter_key_less:
  "w \<in> set (map fst d) \<Longrightarrow> length (filter (\<lambda>kv. fst kv \<noteq> w) d) < length d"
proof (induction d)
  case Nil
  then show ?case by simp
next
  case (Cons kv d)
  show ?case
  proof (cases "fst kv = w")
    case True
    then show ?thesis by (simp add: less_Suc_eq_le length_filter_le)
  next
    case False
    with Cons.prems have "w \<in> set (map fst d)" by auto
    from Cons.IH [OF this] False show ?thesis by simp
  qed
qed

text \<open>
  The loop \<^verbatim>\<open>while len(src_dict) > 1\<close>: the worst source is deleted and its leaves are recorded
  as bettered.
\<close>

function discard_worse ::
  "'s src_dict \<Rightarrow> 's stmt_tpl set \<Rightarrow> error + ('s src_dict \<times> 's stmt_tpl set)" where
  "discard_worse src_dict some_bettered_duplicate_tpls =
     (if 1 < length src_dict then
        (case py_min_key better_func (map fst src_dict) of
           Inl e \<Rightarrow> Inl e
         | Inr worst_src \<Rightarrow>
             discard_worse (filter (\<lambda>kv. fst kv \<noteq> worst_src) src_dict)
               (some_bettered_duplicate_tpls \<union>
                  (case map_of src_dict worst_src of None \<Rightarrow> {} | Some tc_d \<Rightarrow> leaves_tc tc_d)))
      else Inr (src_dict, some_bettered_duplicate_tpls))"
  by pat_completeness auto

termination
  by (relation "measure (\<lambda>(d, b). length d)")
     (auto dest!: py_min_key_mem intro: length_filter_key_less)

declare discard_worse.simps [simp del]

text \<open>
  The leaves of every reader version other than the best one.
\<close>

definition other_versions_leaves ::
  "string \<Rightarrow> 's rv_dict \<Rightarrow> 's stmt_tpl set \<Rightarrow> 's stmt_tpl set" where
  "other_versions_leaves best_rv rv_dict some_bettered_duplicate_tpls =
     fold (\<lambda>(rv, r_d) acc. if rv \<noteq> best_rv then acc \<union> leaves_r r_d else acc)
       rv_dict some_bettered_duplicate_tpls"

text \<open>
  The generator \<^verbatim>\<open>stmt_set_itr\<close>: the sets of tuples under the best reader version.
\<close>

definition stmt_set_itr :: "'s rv_dict \<Rightarrow> string \<Rightarrow> 's stmt_tpl list list" where
  "stmt_set_itr rv_dict best_rv =
     concat (map (\<lambda>(rid, s_d). map snd s_d)
       (case map_of rv_dict best_rv of None \<Rightarrow> [] | Some r_d \<Rightarrow> r_d))"

text \<open>
  The three accumulators of the loops below: \<^verbatim>\<open>stmt_tpls\<close>, \<^verbatim>\<open>duplicate_sids\<close> and
  \<^verbatim>\<open>some_bettered_duplicate_tpls\<close>.
\<close>

type_synonym 's rdg_state = "'s stmt_tpl set \<times> int set \<times> 's stmt_tpl set"

text \<open>
  The loop over \<^verbatim>\<open>src_dict.gets(reader)\<close>.
\<close>

fun rv_dict_loop ::
  "('s stmt_tpl list \<Rightarrow> 's stmt_tpl) \<Rightarrow> int set \<Rightarrow> bool \<Rightarrow> string list \<Rightarrow> 's rv_dict list \<Rightarrow>
     's rdg_state \<Rightarrow> error + 's rdg_state" where
  "rv_dict_loop pop linked_sids ignore_duplicates rv_list [] st = Inr st"
| "rv_dict_loop pop linked_sids ignore_duplicates rv_list (rv_dict # rv_dicts)
     (stmt_tpls, duplicate_sids, some_bettered_duplicate_tpls) =
     (case py_max_key (index_of rv_list) (map fst rv_dict) of
        Inl e \<Rightarrow> Inl e
      | Inr best_rv \<Rightarrow>
          let bettered = other_versions_leaves best_rv rv_dict some_bettered_duplicate_tpls;
              itr = stmt_set_itr rv_dict best_rv
          in if ignore_duplicates then
               rv_dict_loop pop linked_sids ignore_duplicates rv_list rv_dicts
                 (stmt_tpls \<union> (\<Union>stmt_set \<in> set itr. set stmt_set), duplicate_sids, bettered)
             else
               (case detect_exact_duplicates pop itr linked_sids of
                  Inl e \<Rightarrow> Inl e
                | Inr (some_stmt_tpls, some_duplicate_tpls) \<Rightarrow>
                    rv_dict_loop pop linked_sids ignore_duplicates rv_list rv_dicts
                      (stmt_tpls \<union> some_stmt_tpls,
                       duplicate_sids \<union> fst ` some_duplicate_tpls, bettered)))"

text \<open>
  The loop over \<^verbatim>\<open>reader_versions.items()\<close>.
\<close>

fun reader_loop ::
  "('s stmt_tpl list \<Rightarrow> 's stmt_tpl) \<Rightarrow> int set \<Rightarrow> bool \<Rightarrow> 's src_dict \<Rightarrow>
     (string \<times> string list) list \<Rightarrow> 's rdg_state \<Rightarrow> error + 's rdg_state" where
  "reader_loop pop linked_sids ignore_duplicates src_dict [] st = Inr st"
| "reader_loop pop linked_sids ignore_duplicates src_dict ((reader, rv_list) # readers) st =
     (case rv_dict_loop pop linked_sids ignore_duplicates rv_list (gets_reader reader src_dict) st of
        Inl e \<Rightarrow> Inl e
      | Inr st' \<Rightarrow> reader_loop pop linked_sids ignore_duplicates src_dict readers st')"

text \<open>
  The loop over \<^verbatim>\<open>stmt_nd.items()\<close>.
\<close>

fun text_ref_loop ::
  "('s stmt_tpl list \<Rightarrow> 's stmt_tpl) \<Rightarrow> int set \<Rightarrow> bool \<Rightarrow> 's stmt_nd \<Rightarrow>
     's stmt_tpl set \<times> int set \<times> int set \<Rightarrow> error + ('s stmt_tpl set \<times> int set \<times> int set)" where
  "text_ref_loop pop linked_sids ignore_duplicates [] acc = Inr acc"
| "text_ref_loop pop linked_sids ignore_duplicates ((trid, src_dict) # stmt_nd)
     (stmt_tpls, duplicate_sids, bettered_duplicate_sids) =
     (case discard_worse src_dict {} of
        Inl e \<Rightarrow> Inl e
      | Inr (src_dict', some_bettered) \<Rightarrow>
          (case reader_loop pop linked_sids ignore_duplicates src_dict' reader_versions
                  (stmt_tpls, duplicate_sids, some_bettered) of
             Inl e \<Rightarrow> Inl e
           | Inr (stmt_tpls', duplicate_sids', some_bettered') \<Rightarrow>
               text_ref_loop pop linked_sids ignore_duplicates stmt_nd
                 (stmt_tpls', duplicate_sids', bettered_duplicate_sids \<union> fst ` some_bettered')))"

text \<open>
  \<^verbatim>\<open>get_filtered_rdg_stmts\<close>. With full statements, the assertion compares the number of
  statements that are not \<^verbatim>\<open>None\<close> with the number of tuples.
\<close>

definition get_filtered_rdg_stmts ::
  "('s stmt_tpl list \<Rightarrow> 's stmt_tpl) \<Rightarrow> 's stmt_nd \<Rightarrow> bool \<Rightarrow> int set \<Rightarrow> bool \<Rightarrow>
     error + ('s kept_stmt set \<times> int set \<times> int set)" where
  "get_filtered_rdg_stmts pop stmt_nd get_full_stmts linked_sids ignore_duplicates =
     (case text_ref_loop pop linked_sids ignore_duplicates stmt_nd ({}, {}, {}) of
        Inl e \<Rightarrow> Inl e
      | Inr (stmt_tpls, duplicate_sids, bettered_duplicate_sids) \<Rightarrow>
          if get_full_stmts then
            (let stmts = (the \<circ> snd) ` {tpl \<in> stmt_tpls. snd tpl \<noteq> None} in
             if card stmts = card stmt_tpls
             then Inr (Stmt ` stmts, duplicate_sids, bettered_duplicate_sids)
             else Inl (AssertionError NoneStatement))
          else Inr (Sid ` fst ` stmt_tpls, duplicate_sids, bettered_duplicate_sids))"

subsection \<open>Building the nested dictionary\<close>

text \<open>
  \<^verbatim>\<open>d[k]\<close> on a nested dictionary, followed by an update of what is found there: a key that is
  missing is created with the default.
\<close>

fun nd_item :: "'k \<Rightarrow> ('v \<Rightarrow> 'v) \<Rightarrow> 'v \<Rightarrow> ('k \<times> 'v) list \<Rightarrow> ('k \<times> 'v) list" where
  "nd_item k f dflt [] = [(k, f dflt)]"
| "nd_item k f dflt ((k', v) # d) =
     (if k' = k then (k', f v) # d else (k', v) # nd_item k f dflt d)"

text \<open>
  Modelled from the spec: the statement class and \<^verbatim>\<open>_set_evidence_text_ref\<close> are not part of the
  module; they are arguments.
\<close>

record ('j, 's) statement_lib =
  from_json :: "'j \<Rightarrow> 's"
  set_evidence_text_ref :: "'s \<Rightarrow> text_ref \<Rightarrow> 's"
  get_hash :: "'s \<Rightarrow> int"

type_synonym 'j rdg_row = "text_ref \<times> int \<times> string \<times> int \<times> string \<times> int \<times> 'j"

text \<open>
  The join of \<^verbatim>\<open>get_reading_stmt_dict\<close>.
\<close>

definition rdg_query :: "'j database \<Rightarrow> ('j raw_statement \<Rightarrow> bool) \<Rightarrow> 'j rdg_row list" where
  "rdg_query db clauses =
     [(tr, tc_id tc, tc_source tc, rd_id rd, rd_reader_version rd, rs_id rs, rs_json rs).
        rs \<leftarrow> raw_statements db, rd \<leftarrow> readings db, tc \<leftarrow> text_contents db, tr \<leftarrow> text_refs db,
        rs_reading_id rs = Some (rd_id rd), rd_text_content_id rd = tc_id tc,
        tc_text_ref_id tc = tr_id tr, clauses rs]"

text \<open>
  The reader whose list has the version; the \<^verbatim>\<open>for ... else\<close> raises when there is none.
\<close>

definition reader_of_version :: "string \<Rightarrow> string option" where
  "reader_of_version rv =
     map_option fst (find (\<lambda>(reader, rv_list). rv \<in> set rv_list) reader_versions)"

fun reading_stmt_dict_loop ::
  "('j, 's) statement_lib \<Rightarrow> bool \<Rightarrow> 'j rdg_row list \<Rightarrow> 's stmt_nd \<Rightarrow> error + 's stmt_nd" where
  "reading_stmt_dict_loop lib get_full_stmts [] stmt_nd = Inr stmt_nd"
| "reading_stmt_dict_loop lib get_full_stmts ((tr, tcid, src, rid, rv, sid, sjson) # rows) stmt_nd =
     (case reader_of_version rv of
        None \<Rightarrow> Inl Exception
      | Some reader \<Rightarrow>
          let stmt = set_evidence_text_ref lib (from_json lib sjson) tr;
              stmt_hash = get_hash lib stmt;
              tpl = (sid, if get_full_stmts then Some stmt else None)
          in reading_stmt_dict_loop lib get_full_stmts rows
               (nd_item (tr_id tr) (nd_item src (nd_item tcid (nd_item reader (nd_item rv
                  (nd_item rid (nd_item stmt_hash (List.insert tpl) []) []) []) []) []) []) []
                  stmt_nd))"

definition get_reading_stmt_dict ::
  "('j, 's) statement_lib \<Rightarrow> 'j database \<Rightarrow> ('j raw_statement \<Rightarrow> bool) \<Rightarrow> bool \<Rightarrow> error + 's stmt_nd" where
  "get_reading_stmt_dict lib db clauses get_full_stmts =
     reading_stmt_dict_loop lib get_full_stmts (rdg_query db clauses) []"

subsection \<open>Distilling\<close>

text \<open>
  \<^verbatim>\<open>delete_raw_statements_by_id\<close>; \<^verbatim>\<open>remove\<close> is the list that \<^verbatim>\<open>'all'\<close> stands for, or another.
\<close>

definition delete_raw_statements_by_id ::
  "string list \<Rightarrow> int set \<Rightarrow> 'j database \<Rightarrow> 'j database" where
  "delete_raw_statements_by_id remove raw_sids db =
     (let db1 = (if ''links'' \<in> set remove
                 then db\<lparr>raw_unique_links :=
                        filter (\<lambda>l. rul_raw_stmt_id l \<notin> raw_sids) (raw_unique_links db)\<rparr>
                 else db);
          db2 = (if ''agents'' \<in> set remove
                 then db1\<lparr>raw_agents := filter (\<lambda>a. ra_stmt_id a \<notin> raw_sids) (raw_agents db1)\<rparr>
                 else db1)
      in if ''statements'' \<in> set remove
         then db2\<lparr>raw_statements := filter (\<lambda>r. rs_id r \<notin> raw_sids) (raw_statements db2)\<rparr>
         else db2)"

text \<open>
  Modelled from the spec: \<^verbatim>\<open>batch_iter\<close> is not part of the module. It cuts a sequence into
  batches of \<^verbatim>\<open>batch_size\<close>.
\<close>

function batch_iter :: "nat \<Rightarrow> 'a list \<Rightarrow> 'a list list" where
  "batch_iter batch_size xs =
     (if batch_size = 0 \<or> xs = [] then []
      else take batch_size xs # batch_iter batch_size (drop batch_size xs))"
  by pat_completeness auto

termination
  by (relation "measure (\<lambda>(n, xs). length xs)") auto

declare batch_iter.simps [simp del]

text \<open>
  The deletion of the links of the statements that have a better version.
\<close>

definition weed_links :: "int set \<Rightarrow> 'j database \<Rightarrow> 'j database" where
  "weed_links bad_link_sids db =
     db\<lparr>raw_unique_links := filter (\<lambda>l. rul_raw_stmt_id l \<notin> bad_link_sids) (raw_unique_links db)\<rparr>"

text \<open>
  What \<^verbatim>\<open>distill_stmts\<close> does with the results of its two filtering stages: the two
  assertions \<^verbatim>\<open>assert not linked_sids & duplicate_sids\<close>, the weeding of links, and the handling
  of the duplicates. The result is the set returned, the database as it is left, and the set
  that is pickled, if any.
\<close>

definition distill_stages ::
  "int set \<Rightarrow> error + ('s kept_stmt set \<times> int set \<times> int set) \<Rightarrow>
     error + ('s kept_stmt set \<times> int set) \<Rightarrow> 'j database \<Rightarrow> string \<Rightarrow> bool \<Rightarrow> int \<Rightarrow>
     error + ('s kept_stmt set \<times> 'j database \<times> int set option)" where
  "distill_stages linked_sids rdg_result db_result db handle_duplicates weed_evidence batch_size =
     (case rdg_result of
        Inl e \<Rightarrow> Inl e
      | Inr (rdg_stmts, rdg_duplicate_sids, bettered_duplicate_sids) \<Rightarrow>
          if linked_sids \<inter> rdg_duplicate_sids \<noteq> {} then Inl (AssertionError LinkedDuplicate)
          else
            (case db_result of
               Inl e \<Rightarrow> Inl e
             | Inr (db_stmts, db_duplicates) \<Rightarrow>
                 let stmts = rdg_stmts \<union> db_stmts;
                     duplicate_sids = rdg_duplicate_sids \<union> db_duplicates
                 in if linked_sids \<inter> duplicate_sids \<noteq> {}
                    then Inl (AssertionError LinkedDuplicate)
                    else
                      let bad_link_sids = bettered_duplicate_sids \<inter> linked_sids;
                          db1 = (if bad_link_sids \<noteq> {} \<and> weed_evidence
                                 then weed_links bad_link_sids db else db)
                      in if duplicate_sids \<noteq> {} \<and> handle_duplicates = ''delete'' then
                           Inr (stmts,
                                fold (\<lambda>dup_id_batch.
                                        delete_raw_statements_by_id
                                          [''links'', ''agents'', ''statements'']
                                          (set dup_id_batch))
                                  (batch_iter (nat batch_size)
                                     (sorted_list_of_set duplicate_sids)) db1,
                                None)
                         else if duplicate_sids \<noteq> {} \<and> handle_duplicates \<noteq> ''ignore'' then
                           Inr (stmts, db1, Some duplicate_sids)
                         else Inr (stmts, db1, None)))"

definition linked_sids_of :: "'j database \<Rightarrow> string \<Rightarrow> int set" where
  "linked_sids_of db handle_duplicates =
     (if handle_duplicates \<noteq> ''ignore'' then set (map rul_raw_stmt_id (raw_unique_links db))
      else {})"

text \<open>
  \<^verbatim>\<open>distill_stmts\<close>.
\<close>

definition distill_stmts ::
  "('s stmt_tpl list \<Rightarrow> 's stmt_tpl) \<Rightarrow> ('j db_row list \<Rightarrow> 'j db_row) \<Rightarrow> ('j, 's) statement_lib \<Rightarrow>
     'j database \<Rightarrow> bool \<Rightarrow> ('j raw_statement \<Rightarrow> bool) \<Rightarrow> int \<Rightarrow> string \<Rightarrow> bool \<Rightarrow> int \<Rightarrow>
     error + ('s kept_stmt set \<times> 'j database \<times> int set option)" where
  "distill_stmts pop pop_row lib db get_full_stmts clauses num_procs handle_duplicates weed_evidence
     batch_size =
     (let linked_sids = linked_sids_of db handle_duplicates
      in case get_reading_stmt_dict lib db clauses get_full_stmts of
           Inl e \<Rightarrow> Inl e
         | Inr stmt_nd \<Rightarrow>
             distill_stages linked_sids
               (get_filtered_rdg_stmts pop stmt_nd get_full_stmts linked_sids False)
               (get_filtered_db_stmts pop_row (from_json lib) db get_full_stmts clauses
                  linked_sids num_procs)
               db handle_duplicates weed_evidence batch_size)"

subsection \<open>The notions the duplicate claims speak of\<close>

text \<open>
  The members of a group that are already linked.
\<close>

definition linked_tpls :: "int set \<Rightarrow> 's stmt_tpl list \<Rightarrow> 's stmt_tpl set" where
  "linked_tpls linked_sids stmt_tpl_set = {tpl \<in> set stmt_tpl_set. fst tpl \<in> linked_sids}"

text \<open>
  The member \<^verbatim>\<open>_detect_exact_duplicates\<close> keeps from a group that has at most one linked member.
\<close>

definition rdg_choice ::
  "('s stmt_tpl list \<Rightarrow> 's stmt_tpl) \<Rightarrow> int set \<Rightarrow> 's stmt_tpl list \<Rightarrow> 's stmt_tpl" where
  "rdg_choice pop linked_sids stmt_tpl_set =
     (if py_len stmt_tpl_set = 1 then hd stmt_tpl_set
      else case filter (\<lambda>tpl. fst tpl \<in> linked_sids) stmt_tpl_set of
             [] \<Rightarrow> pop stmt_tpl_set
           | tpl # _ \<Rightarrow> tpl)"

definition linked_rows :: "int set \<Rightarrow> 'j db_row list \<Rightarrow> 'j db_row set" where
  "linked_rows not_duplicates stmt_tpl_grp = {tpl \<in> set stmt_tpl_grp. row_id tpl \<in> not_duplicates}"

text \<open>
  The row \<^verbatim>\<open>_choose_unique\<close> keeps from a group that has at most one linked row.
\<close>

definition db_choice :: "('j db_row list \<Rightarrow> 'j db_row) \<Rightarrow> int set \<Rightarrow> 'j db_row list \<Rightarrow> 'j db_row" where
  "db_choice pop not_duplicates stmt_tpl_grp =
     (if length stmt_tpl_grp = 1 then hd stmt_tpl_grp
      else case filter (\<lambda>tpl. row_id tpl \<in> not_duplicates) (remdups stmt_tpl_grp) of
             [] \<Rightarrow> pop (remdups stmt_tpl_grp)
           | tpl # tpls \<Rightarrow> pop (tpl # tpls))"

text \<open>
  \<^verbatim>\<open>set.pop()\<close> returns a member of the set.
\<close>

definition valid_pop :: "('a list \<Rightarrow> 'a) \<Rightarrow> bool" where
  "valid_pop pop \<longleftrightarrow> (\<forall>xs. xs \<noteq> [] \<longrightarrow> pop xs \<in> set xs)"

subsection \<open>Sample inputs\<close>

definition sample_groups :: "unit stmt_tpl list list" where
  "sample_groups = [[(1, None), (2, None)], [(3, None), (4, None)], [(5, None)], []]"

definition sample_rows :: "unit db_row list" where
  "sample_rows = [(10, 1, None), (10, 2, None)]"

definition sample_lib :: "(int, int) statement_lib" where
  "sample_lib = \<lparr>from_json = (\<lambda>j. j), set_evidence_text_ref = (\<lambda>s tr. s), get_hash = (\<lambda>s. s)\<rparr>"

definition sample_db :: "int database" where
  "sample_db =
     \<lparr>raw_statements =
        [\<lparr>rs_id = 1, rs_mk_hash = 10, rs_json = 7, rs_db_info_id = Some 1, rs_reading_id = None\<rparr>,
         \<lparr>rs_id = 2, rs_mk_hash = 10, rs_json = 7, rs_db_info_id = Some 1, rs_reading_id = None\<rparr>,
         \<lparr>rs_id = 3, rs_mk_hash = 11, rs_json = 8, rs_db_info_id = Some 1, rs_reading_id = None\<rparr>,
         \<lparr>rs_id = 4, rs_mk_hash = 12, rs_json = 9, rs_db_info_id = None, rs_reading_id = Some 100\<rparr>,
         \<lparr>rs_id = 5, rs_mk_hash = 12, rs_json = 9, rs_db_info_id = None, rs_reading_id = Some 100\<rparr>],
      readings = [\<lparr>rd_id = 100, rd_text_content_id = 50, rd_reader_version = ''61059a-biores-e9ee36''\<rparr>],
      text_contents = [\<lparr>tc_id = 50, tc_text_ref_id = 20, tc_source = ''pubmed''\<rparr>],
      text_refs = [\<lparr>tr_id = 20\<rparr>],
      raw_unique_links =
        [\<lparr>rul_raw_stmt_id = 2, rul_pa_stmt_mk_hash = 10\<rparr>,
         \<lparr>rul_raw_stmt_id = 5, rul_pa_stmt_mk_hash = 12\<rparr>],
      raw_agents = []\<rparr>"

definition sample_nd :: "int stmt_nd" where
  "sample_nd = [(20, [(''pubmed'', [(50, [(''reach'', [(''61059a-biores-e9ee36'',
      [(100, [(9, [(5, None), (4, None)])])])])])])])]"

section \<open>Properties of the submitter\<close>

lemma str_nat_small: "n < 10 \<Longrightarrow> str_nat n = [digit_char n]"
  by (subst str_nat.simps) simp

lemma str_nat_large: "\<not> n < 10 \<Longrightarrow> str_nat n = str_nat (n div 10) @ [digit_char (n mod 10)]"
  by (subst str_nat.simps) simp

text \<open>
  C7. When the submitter's task is in the job type set, \<^verbatim>\<open>_get_command\<close> returns the job
  name \<^verbatim>\<open><job_base>_<task>_<stmt_type>\<close> and exactly the thirteen-word command line, with
  \<^verbatim>\<open>-c\<close> appended if and only if \<^verbatim>\<open>continuing\<close> holds; when the task is not in the set it
  returns no job.
\<close>

theorem get_command_spec:
  "get_command bucket self jts (Args3 stmt_type batch_size continuing) =
     (if task self \<in> jts
      then Some (job_base self @ ''_'' @ task self @ ''_'' @ stmt_type,
                 [''python3'', ''-m'', ''indra_db.preassembly.preassemble_db'', task self,
                  ''-n'', ''32'', ''-C'',
                  ''s3://'' @ bucket @ ''/'' @ s3_base self @ ''/'' @
                    (job_base self @ ''_'' @ task self @ ''_'' @ stmt_type),
                  ''-T'', stmt_type, ''-Y'', ''-b'', str_int batch_size]
                 @ (if continuing then [''-c''] else []))
      else None)"
  by (simp add: get_command_def Let_def)

section \<open>Properties of the TAS manager\<close>

lemma choose_better_new:
  "get_order_value s = Inr i \<Longrightarrow> choose_better [Some s, None] = Inr s"
  by (simp add: choose_better_def)

lemma choose_better_two:
  "get_order_value s = Inr i \<Longrightarrow> get_order_value c = Inr j \<Longrightarrow>
   choose_better [Some s, Some c] = Inr (if j < i then c else s)"
  by (simp add: choose_better_def)

lemma choose_better_err:
  "get_order_value s = Inl e \<Longrightarrow> choose_better [Some s, x] = Inl e"
  by (simp add: choose_better_def)

lemma tas_inv_step:
  assumes inv: "tas_inv seen d" and ok: "get_order_value s = Inr i"
  shows "\<exists>b. choose_better [Some s, map_of d (matches_key s)] = Inr b \<and>
             tas_inv (seen @ [s]) (AList.update (matches_key s) b d)"
proof (cases "map_of d (matches_key s)")
  case None
  have cb: "choose_better [Some s, map_of d (matches_key s)] = Inr s"
    using None ok by (simp add: choose_better_new)
  have "tas_inv (seen @ [s]) (AList.update (matches_key s) s d)"
    using inv ok None
    unfolding tas_inv_def
    by (auto simp: distinct_update update_conv')
  with cb show ?thesis by blast
next
  case (Some c)
  from inv Some have cfacts: "matches_key c = matches_key s \<and> c \<in> set seen \<and>
        (\<forall>t \<in> set seen. matches_key t = matches_key s \<longrightarrow>
           (\<exists>i j. get_order_value c = Inr i \<and> get_order_value t = Inr j \<and> i \<le> j))"
    unfolding tas_inv_def by blast
  then obtain j where j: "get_order_value c = Inr j" by blast
  from cfacts have c: "matches_key c = matches_key s" "c \<in> set seen" by simp_all
  from cfacts j have cmin: "\<forall>t \<in> set seen. matches_key t = matches_key s \<longrightarrow>
           (\<exists>j'. get_order_value t = Inr j' \<and> j \<le> j')"
    by auto
  have cb: "choose_better [Some s, map_of d (matches_key s)] = Inr (if j < i then c else s)"
    using Some ok j by (simp add: choose_better_two)
  have "tas_inv (seen @ [s]) (AList.update (matches_key s) (if j < i then c else s) d)"
    using inv ok c j cmin
    unfolding tas_inv_def
    by (auto simp: distinct_update update_conv')
  with cb show ?thesis by blast
qed


lemma tas_loop_inv:
  "tas_inv seen d \<Longrightarrow> \<forall>s \<in> set ss. \<exists>i. get_order_value s = Inr i \<Longrightarrow>
   \<exists>d'. tas_loop ss d = Inr d' \<and> tas_inv (seen @ ss) d'"
proof (induction ss arbitrary: seen d)
  case Nil
  then show ?case by simp
next
  case (Cons s ss)
  from Cons.prems(2) obtain i where ok: "get_order_value s = Inr i" by auto
  from tas_inv_step [OF Cons.prems(1) ok] obtain b
    where b: "choose_better [Some s, map_of d (matches_key s)] = Inr b"
      and inv': "tas_inv (seen @ [s]) (AList.update (matches_key s) b d)"
    by blast
  from Cons.prems(2) have rest: "\<forall>s \<in> set ss. \<exists>i. get_order_value s = Inr i" by simp
  from Cons.IH [OF inv' rest] b show ?case by (simp add: Let_def)
qed

lemma tas_inv_empty: "tas_inv [] []"
  by (simp add: tas_inv_def)

lemma class_min_order_value:
  "evidence s = ann # evs \<Longrightarrow> ann ''class_min'' = Some cm \<Longrightarrow>
   get_order_value s = (case index_of [''Kd < 100nM'', ''100nM < Kd < 1uM''] cm of
                          None \<Rightarrow> Inl ValueError | Some i \<Rightarrow> Inr i)"
  by (simp add: get_order_value_def)

lemma tas_two_candidates:
  assumes "evidence a = ann_a # evs_a" "ann_a ''class_min'' = Some ''Kd < 100nM''"
    and "evidence b = ann_b # evs_b" "ann_b ''class_min'' = Some ''100nM < Kd < 1uM''"
    and "matches_key a = matches_key b"
  shows "get_statements [a, b] = Inr [a] \<and> get_statements [b, a] = Inr [a]"
  using assms
  by (simp add: get_statements_def choose_better_def class_min_order_value Let_def)


lemma tas_keeps_min_rank:
  "(\<forall>s \<in> set stmts. \<exists>i. get_order_value s = Inr i) \<longrightarrow>
     (\<exists>kept. get_statements stmts = Inr kept \<and> distinct (map matches_key kept) \<and>
        set kept \<subseteq> set stmts \<and>
        (\<forall>s \<in> set stmts. \<exists>b \<in> set kept. matches_key b = matches_key s \<and>
           (\<exists>i j. get_order_value b = Inr i \<and> get_order_value s = Inr j \<and> i \<le> j)))"
proof
  assume valid: "\<forall>s \<in> set stmts. \<exists>i. get_order_value s = Inr i"
  from tas_loop_inv [OF tas_inv_empty valid] obtain d
    where d: "tas_loop stmts [] = Inr d" and inv: "tas_inv stmts d"
    by auto
  from inv have dist: "distinct (map fst d)" by (simp add: tas_inv_def)
  have res: "get_statements stmts = Inr (map snd d)"
    using d by (simp add: get_statements_def)
  from inv have sound: "\<And>k b. map_of d k = Some b \<Longrightarrow> matches_key b = k \<and> b \<in> set stmts \<and>
        (\<forall>s \<in> set stmts. matches_key s = k \<longrightarrow>
           (\<exists>i j. get_order_value b = Inr i \<and> get_order_value s = Inr j \<and> i \<le> j))"
    unfolding tas_inv_def by blast
  from inv have complete: "\<And>s. s \<in> set stmts \<Longrightarrow> \<exists>b. map_of d (matches_key s) = Some b"
    unfolding tas_inv_def by blast
  have entry: "matches_key b = k \<and> b \<in> set stmts" if "(k, b) \<in> set d" for k b
    using sound [OF map_of_is_SomeI [OF dist that]] by blast
  have "map (matches_key \<circ> snd) d = map fst d"
    by (rule map_cong) (use entry in auto)
  then have 1: "distinct (map matches_key (map snd d))"
    unfolding map_map using dist by (simp only:)
  have 2: "set (map snd d) \<subseteq> set stmts"
    using entry by auto
  have 3: "\<exists>b \<in> set (map snd d). matches_key b = matches_key s \<and>
           (\<exists>i j. get_order_value b = Inr i \<and> get_order_value s = Inr j \<and> i \<le> j)"
    if s: "s \<in> set stmts" for s
  proof -
    from complete [OF s] obtain b where b: "map_of d (matches_key s) = Some b" by blast
    then have "(matches_key s, b) \<in> set d" by (rule map_of_SomeD)
    then have "b \<in> set (map snd d)" by force
    moreover from sound [OF b] s have "matches_key b = matches_key s \<and>
           (\<exists>i j. get_order_value b = Inr i \<and> get_order_value s = Inr j \<and> i \<le> j)"
      by blast
    ultimately show ?thesis by blast
  qed
  from res 1 2 3 show "\<exists>kept. get_statements stmts = Inr kept \<and> distinct (map matches_key kept) \<and>
        set kept \<subseteq> set stmts \<and>
        (\<forall>s \<in> set stmts. \<exists>b \<in> set kept. matches_key b = matches_key s \<and>
           (\<exists>i j. get_order_value b = Inr i \<and> get_order_value s = Inr j \<and> i \<le> j))"
    by blast
qed

text \<open>
  C8. Among the TAS candidates that share a matching key, the manager keeps one whose first
  evidence's \<^verbatim>\<open>class_min\<close> ranks earliest in \<^verbatim>\<open>["Kd < 100nM", "100nM < Kd < 1uM"]\<close>: when every
  candidate has a ranked \<^verbatim>\<open>class_min\<close>, \<^verbatim>\<open>_get_statements\<close> returns one candidate per key, and
  no candidate of that key ranks before it. In particular, of two candidates for one key
  with \<^verbatim>\<open>class_min\<close> \<^verbatim>\<open>"Kd < 100nM"\<close> and \<^verbatim>\<open>"100nM < Kd < 1uM"\<close>, the first is kept, in whichever
  order they arrive.
\<close>

theorem tas_keeps_preferred:
  "((\<forall>s \<in> set stmts. \<exists>i. get_order_value s = Inr i) \<longrightarrow>
      (\<exists>kept. get_statements stmts = Inr kept \<and> distinct (map matches_key kept) \<and>
         set kept \<subseteq> set stmts \<and>
         (\<forall>s \<in> set stmts. \<exists>b \<in> set kept. matches_key b = matches_key s \<and>
            (\<exists>i j. get_order_value b = Inr i \<and> get_order_value s = Inr j \<and> i \<le> j)))) \<and>
   (evidence a = ann_a # evs_a \<and> ann_a ''class_min'' = Some ''Kd < 100nM'' \<and>
    evidence b = ann_b # evs_b \<and> ann_b ''class_min'' = Some ''100nM < Kd < 1uM'' \<and>
    matches_key a = matches_key b \<longrightarrow>
      get_statements [a, b] = Inr [a] \<and> get_statements [b, a] = Inr [a])"
  using tas_keeps_min_rank [of stmts] tas_two_candidates [of a ann_a evs_a b ann_b evs_b]
  by blast

theorem tas_keeps_preferred_witness:
  "get_order_value tas_weak = Inr 1 \<and> get_order_value tas_strong = Inr 0 \<and>
   matches_key tas_strong = matches_key tas_weak \<and>
   (\<exists>kept. get_statements [tas_weak, tas_strong] = Inr kept \<and> set kept \<subseteq> {tas_weak, tas_strong} \<and>
      (\<exists>b \<in> set kept. get_order_value b = Inr 0)) \<and>
   get_statements [tas_strong, tas_weak] = Inr [tas_strong] \<and>
   get_statements [tas_weak, tas_strong] = Inr [tas_strong]"
proof -
  have ov: "get_order_value tas_weak = Inr 1" "get_order_value tas_strong = Inr 0"
    by (simp_all add: get_order_value_def tas_weak_def tas_strong_def)
  have key: "matches_key tas_strong = matches_key tas_weak"
    by (simp add: tas_weak_def tas_strong_def)
  have ev: "evidence tas_strong = [''class_min'' \<mapsto> ''Kd < 100nM''] # []"
    "evidence tas_weak = [''class_min'' \<mapsto> ''100nM < Kd < 1uM''] # []"
    by (simp_all add: tas_weak_def tas_strong_def)
  note inst = tas_keeps_preferred [of "[tas_weak, tas_strong]" tas_strong
      "[''class_min'' \<mapsto> ''Kd < 100nM'']" "[]" tas_weak
      "[''class_min'' \<mapsto> ''100nM < Kd < 1uM'']" "[]"]
  from inst ov obtain kept where kept: "get_statements [tas_weak, tas_strong] = Inr kept"
    "set kept \<subseteq> {tas_weak, tas_strong}"
    "\<exists>b \<in> set kept. matches_key b = matches_key tas_strong \<and>
       (\<exists>i j. get_order_value b = Inr i \<and> get_order_value tas_strong = Inr j \<and> i \<le> j)"
    by auto
  from kept(3) ov(2) have "\<exists>b \<in> set kept. get_order_value b = Inr 0" by auto
  moreover from inst ev key have "get_statements [tas_strong, tas_weak] = Inr [tas_strong] \<and>
      get_statements [tas_weak, tas_strong] = Inr [tas_strong]"
    by simp
  ultimately show ?thesis using ov key kept(1,2) by blast
qed

section \<open>Properties of the dump listing\<close>

lemma list_dumps_three:
  assumes store: "set store = {(d1, ''start''), (d2, ''start''), (d2, ''end''), (d3, m)}"
    and m: "m \<noteq> ''start''" "m \<noteq> ''end''"
    and dist: "d1 \<noteq> d2" "d1 \<noteq> d3" "d2 \<noteq> d3"
  shows "list_dumps root store None None = map (dump_path root) (sort [d1, d2, d3])"
    and "list_dumps root store (Some True) None = map (dump_path root) (sort [d1, d2])"
    and "list_dumps root store (Some True) (Some True) = [dump_path root d2]"
proof -
  have sel: "sort (remdups (filter P (map fst store))) = sorted_list_of_set {d \<in> {d1, d2, d3}. P d}" for P
  proof -
    have "set (filter P (map fst store)) = {d \<in> {d1, d2, d3}. P d}"
      using store by auto
    then show ?thesis by (metis sorted_list_of_set_sort_remdups)
  qed
  have hs: "has_marker store d ''start'' \<longleftrightarrow> d = d1 \<or> d = d2 \<or> (d = d3 \<and> m = ''start'')"
    and he: "has_marker store d ''end'' \<longleftrightarrow> d = d2 \<or> (d = d3 \<and> m = ''end'')" for d
    using store by (auto simp: has_marker_def)
  have s3: "sorted_list_of_set {d1, d2, d3} = sort [d1, d2, d3]"
    using dist sorted_list_of_set_sort_remdups [of "[d1, d2, d3]"] by simp
  have s2: "sorted_list_of_set {d1, d2} = sort [d1, d2]"
    using dist sorted_list_of_set_sort_remdups [of "[d1, d2]"] by simp
  have "{d \<in> {d1, d2, d3}. dump_selected store None None d} = {d1, d2, d3}"
    by (auto simp: dump_selected_def)
  then show "list_dumps root store None None = map (dump_path root) (sort [d1, d2, d3])"
    by (simp only: list_dumps_def sel s3)
  have "{d \<in> {d1, d2, d3}. dump_selected store (Some True) None d} = {d1, d2}"
    using m dist by (auto simp: dump_selected_def hs)
  then show "list_dumps root store (Some True) None = map (dump_path root) (sort [d1, d2])"
    by (simp only: list_dumps_def sel s2)
  have "{d \<in> {d1, d2, d3}. dump_selected store (Some True) (Some True) d} = {d2}"
    using m dist by (auto simp: dump_selected_def hs he)
  then show "list_dumps root store (Some True) (Some True) = [dump_path root d2]"
    by (simp add: list_dumps_def sel)
qed

text \<open>
  C9. Of three dump directories, one with only a \<^verbatim>\<open>start\<close> marker, one with \<^verbatim>\<open>start\<close> and
  \<^verbatim>\<open>end\<close>, one with only an unrelated stage marker, \<^verbatim>\<open>list_dumps\<close> returns the path handles
  of all three in ascending date-stamp order when unfiltered, of exactly the first two with
  \<^verbatim>\<open>started=True\<close>, and of exactly the second with \<^verbatim>\<open>started=True, ended=True\<close>.
\<close>

theorem list_dumps_three_directories:
  "set store = {(d1, ''start''), (d2, ''start''), (d2, ''end''), (d3, m)} \<and>
   m \<noteq> ''start'' \<and> m \<noteq> ''end'' \<and> d1 \<noteq> d2 \<and> d1 \<noteq> d3 \<and> d2 \<noteq> d3 \<longrightarrow>
     list_dumps root store None None = map (dump_path root) (sort [d1, d2, d3]) \<and>
     list_dumps root store (Some True) None = map (dump_path root) (sort [d1, d2]) \<and>
     list_dumps root store (Some True) (Some True) = [dump_path root d2]"
  using list_dumps_three [of store d1 d2 d3 m root] by blast

theorem list_dumps_three_directories_witness:
  "list_dumps test_root test_store None None =
     [\<lparr>s3_bucket = ''bigmech'', s3_key = ''indra-db/dumps/2020-01-01/''\<rparr>,
      \<lparr>s3_bucket = ''bigmech'', s3_key = ''indra-db/dumps/2020-02-01/''\<rparr>,
      \<lparr>s3_bucket = ''bigmech'', s3_key = ''indra-db/dumps/2020-03-01/''\<rparr>] \<and>
   list_dumps test_root test_store (Some True) None =
     [\<lparr>s3_bucket = ''bigmech'', s3_key = ''indra-db/dumps/2020-01-01/''\<rparr>,
      \<lparr>s3_bucket = ''bigmech'', s3_key = ''indra-db/dumps/2020-02-01/''\<rparr>] \<and>
   list_dumps test_root test_store (Some True) (Some True) =
     [\<lparr>s3_bucket = ''bigmech'', s3_key = ''indra-db/dumps/2020-02-01/''\<rparr>]"
  using list_dumps_three_directories [of test_store "''2020-01-01''" "''2020-02-01''"
      "''2020-03-01''" "''sif''" test_root]
  by (simp add: test_store_def test_root_def dump_path_def)

section \<open>Properties of the regular expressions and of submit_curation\<close>

lemma re_lit_Some_iff: "re_lit p k s = Some r \<longleftrightarrow> (\<exists>t. s = p @ t \<and> k t = Some r)"
proof
  assume "re_lit p k s = Some r"
  then have "take (length p) s = p" "k (drop (length p) s) = Some r"
    by (auto simp: re_lit_def split: if_splits)
  then have "s = p @ drop (length p) s \<and> k (drop (length p) s) = Some r"
    by (metis append_take_drop_id)
  then show "\<exists>t. s = p @ t \<and> k t = Some r" by blast
next
  assume "\<exists>t. s = p @ t \<and> k t = Some r"
  then show "re_lit p k s = Some r" by (auto simp: re_lit_def)
qed

lemma re_lazy_dot_sound:
  "re_lazy_dot k s = Some r \<Longrightarrow> \<exists>a b. s = a @ b \<and> CHR 0x0A \<notin> set a \<and> k b = Some r"
proof (induction s)
  case Nil
  then show ?case by simp
next
  case (Cons c cs)
  show ?case
  proof (cases "k (c # cs)")
    case (Some r')
    with Cons.prems have "k (c # cs) = Some r" by simp
    then have "c # cs = [] @ (c # cs) \<and> CHR 0x0A \<notin> set [] \<and> k (c # cs) = Some r" by simp
    then show ?thesis by blast
  next
    case None
    with Cons.prems have c: "c \<noteq> CHR 0x0A" and "re_lazy_dot k cs = Some r"
      by (auto split: if_splits)
    with Cons.IH obtain a b where "cs = a @ b" "CHR 0x0A \<notin> set a" "k b = Some r" by blast
    with c have "c # cs = (c # a) @ b \<and> CHR 0x0A \<notin> set (c # a) \<and> k b = Some r" by auto
    then show ?thesis by blast
  qed
qed

lemma re_lazy_dot_here: "k s = Some r \<Longrightarrow> re_lazy_dot k s = Some r"
  by (cases s) simp_all

lemma re_lazy_dot_complete:
  "CHR 0x0A \<notin> set a \<Longrightarrow> k b = Some r \<Longrightarrow> \<exists>r'. re_lazy_dot k (a @ b) = Some r'"
proof (induction a)
  case Nil
  then show ?case by (simp add: re_lazy_dot_here)
next
  case (Cons c a)
  then obtain r' where "re_lazy_dot k (a @ b) = Some r'" by auto
  with Cons.prems show ?case by (cases "k (c # a @ b)") auto
qed

lemma re_greedy_sound:
  "re_greedy P k acc s = Some r \<Longrightarrow>
   \<exists>a b. s = a @ b \<and> (\<forall>c \<in> set a. P c) \<and> k (acc @ a) b = Some r"
proof (induction s arbitrary: acc)
  case Nil
  then show ?case by simp
next
  case (Cons c cs)
  show ?case
  proof (cases "P c \<and> re_greedy P k (acc @ [c]) cs \<noteq> None")
    case True
    with Cons.prems have "re_greedy P k (acc @ [c]) cs = Some r" by auto
    with Cons.IH obtain a b where "cs = a @ b" "\<forall>c \<in> set a. P c" "k ((acc @ [c]) @ a) b = Some r"
      by blast
    with True have "c # cs = (c # a) @ b \<and> (\<forall>x \<in> set (c # a). P x) \<and> k (acc @ c # a) b = Some r"
      by auto
    then show ?thesis by blast
  next
    case False
    with Cons.prems have "k acc (c # cs) = Some r" by (auto split: if_splits)
    then have "c # cs = [] @ (c # cs) \<and> (\<forall>x \<in> set []. P x) \<and> k (acc @ []) (c # cs) = Some r"
      by simp
    then show ?thesis by blast
  qed
qed

lemma re_greedy_here: "k acc s = Some r \<Longrightarrow> \<exists>r'. re_greedy P k acc s = Some r'"
  by (cases s) (auto split: option.splits)

lemma re_greedy_complete:
  "\<forall>c \<in> set a. P c \<Longrightarrow> k (acc @ a) b = Some r \<Longrightarrow> \<exists>r'. re_greedy P k acc (a @ b) = Some r'"
proof (induction a arbitrary: acc)
  case Nil
  then show ?case by (simp add: re_greedy_here)
next
  case (Cons c a)
  from Cons.prems have "\<forall>c \<in> set a. P c" "k ((acc @ [c]) @ a) b = Some r" by simp_all
  from Cons.IH [OF this] obtain r' where "re_greedy P k (acc @ [c]) (a @ b) = Some r'" by blast
  with Cons.prems show ?case by simp
qed

lemma re_greedy1_sound:
  "re_greedy1 P k s = Some r \<Longrightarrow>
   \<exists>a b. s = a @ b \<and> a \<noteq> [] \<and> (\<forall>c \<in> set a. P c) \<and> k a b = Some r"
proof -
  assume m: "re_greedy1 P k s = Some r"
  then obtain c cs where s: "s = c # cs" and c: "P c" and g: "re_greedy P k [c] cs = Some r"
    by (auto simp: re_greedy1_def split: list.splits if_splits)
  from re_greedy_sound [OF g] obtain a b
    where "cs = a @ b" "\<forall>c \<in> set a. P c" "k ([c] @ a) b = Some r" by blast
  with s c have "s = (c # a) @ b \<and> c # a \<noteq> [] \<and> (\<forall>x \<in> set (c # a). P x) \<and> k (c # a) b = Some r"
    by auto
  then show ?thesis by blast
qed

lemma re_greedy1_complete:
  "a \<noteq> [] \<Longrightarrow> \<forall>c \<in> set a. P c \<Longrightarrow> k a b = Some r \<Longrightarrow> \<exists>r'. re_greedy1 P k (a @ b) = Some r'"
proof -
  assume a: "a \<noteq> []" "\<forall>c \<in> set a. P c" "k a b = Some r"
  then obtain c a' where ca: "a = c # a'" by (cases a) auto
  with a have "\<forall>c \<in> set a'. P c" "k ([c] @ a') b = Some r" by simp_all
  from re_greedy_complete [of a' P k "[c]" b r] this
  obtain r' where "re_greedy P k [c] (a' @ b) = Some r'" by blast
  with ca a show ?thesis by (auto simp: re_greedy1_def)
qed

lemma bad_hash_re_sound: "bad_hash_re line = Some h \<Longrightarrow> detail_form line h"
proof -
  assume m: "bad_hash_re line = Some h"
  let ?k4 = "\<lambda>h. re_lazy_dot (\<lambda>rest::string. Some h)"
  let ?k3 = "\<lambda>h. re_lazy_dot (re_lit ''pa'' (?k4 h))"
  let ?k2 = "\<lambda>h. re_lazy_dot (re_lit ''not present'' (?k3 h))"
  let ?k1 = "re_greedy1 is_digit (\<lambda>h. re_lit '')'' (?k2 h))"
  from m obtain t0 where t0: "line = ''DETAIL: '' @ t0"
    and m0: "re_lazy_dot (re_lit ''(pa_hash)=('' ?k1) t0 = Some h"
    unfolding bad_hash_re_def re_lit_Some_iff by blast
  from re_lazy_dot_sound [OF m0] obtain a t1 where t1: "t0 = a @ t1"
    and m1: "re_lit ''(pa_hash)=('' ?k1 t1 = Some h" by blast
  from m1 obtain t2 where t2: "t1 = ''(pa_hash)=('' @ t2" and m2: "?k1 t2 = Some h"
    unfolding re_lit_Some_iff by blast
  from re_greedy1_sound [OF m2] obtain g t3 where t3: "t2 = g @ t3" and g: "g \<noteq> []"
    "\<forall>c \<in> set g. is_digit c" and m3: "re_lit '')'' (?k2 g) t3 = Some h" by blast
  from m3 obtain t4 where t4: "t3 = '')'' @ t4" and m4: "?k2 g t4 = Some h"
    unfolding re_lit_Some_iff by blast
  from re_lazy_dot_sound [OF m4] obtain b t5 where t5: "t4 = b @ t5"
    and m5: "re_lit ''not present'' (?k3 g) t5 = Some h" by blast
  from m5 obtain t6 where t6: "t5 = ''not present'' @ t6" and m6: "?k3 g t6 = Some h"
    unfolding re_lit_Some_iff by blast
  from re_lazy_dot_sound [OF m6] obtain c t7 where t7: "t6 = c @ t7"
    and m7: "re_lit ''pa'' (?k4 g) t7 = Some h" by blast
  from m7 obtain t8 where t8: "t7 = ''pa'' @ t8" and m8: "?k4 g t8 = Some h"
    unfolding re_lit_Some_iff by blast
  from re_lazy_dot_sound [OF m8] have "g = h" by auto
  with g have h: "h \<noteq> []" "\<forall>c \<in> set h. is_digit c" by simp_all
  have "line = ''DETAIL: '' @ a @ ''(pa_hash)=('' @ h @ '')'' @ b @ ''not present'' @ c @ ''pa'' @ t8"
    unfolding t0 t1 t2 t3 t4 t5 t6 t7 t8 \<open>g = h\<close> [symmetric] by simp
  with h show ?thesis unfolding detail_form_def by blast
qed

lemma bad_hash_re_complete:
  assumes form: "detail_form line h" and nl: "CHR 0x0A \<notin> set line"
  shows "\<exists>h'. bad_hash_re line = Some h'"
proof -
  let ?k4 = "\<lambda>h. re_lazy_dot (\<lambda>rest::string. Some h)"
  let ?k3 = "\<lambda>h. re_lazy_dot (re_lit ''pa'' (?k4 h))"
  let ?k2 = "\<lambda>h. re_lazy_dot (re_lit ''not present'' (?k3 h))"
  let ?k1 = "re_greedy1 is_digit (\<lambda>h. re_lit '')'' (?k2 h))"
  from form obtain a b c d where h: "h \<noteq> []" "\<forall>c \<in> set h. is_digit c"
    and line: "line = ''DETAIL: '' @ a @ ''(pa_hash)=('' @ h @ '')'' @ b @ ''not present'' @ c @
                        ''pa'' @ d"
    unfolding detail_form_def by blast
  from nl line have na: "CHR 0x0A \<notin> set a" and nb: "CHR 0x0A \<notin> set b" and nc: "CHR 0x0A \<notin> set c"
    by auto
  have "?k4 h d = Some h" by (simp add: re_lazy_dot_here)
  then have "re_lit ''pa'' (?k4 h) (''pa'' @ d) = Some h"
    unfolding re_lit_Some_iff by blast
  from re_lazy_dot_complete [of c "re_lit ''pa'' (?k4 h)" "''pa'' @ d" h] nc this
  obtain r3 where "?k3 h (c @ ''pa'' @ d) = Some r3" by blast
  then have "re_lit ''not present'' (?k3 h) (''not present'' @ c @ ''pa'' @ d) = Some r3"
    unfolding re_lit_Some_iff by blast
  from re_lazy_dot_complete [of b "re_lit ''not present'' (?k3 h)"
      "''not present'' @ c @ ''pa'' @ d" r3] nb this
  obtain r2
    where "?k2 h (b @ ''not present'' @ c @ ''pa'' @ d) = Some r2" by blast
  then have "re_lit '')'' (?k2 h) ('')'' @ b @ ''not present'' @ c @ ''pa'' @ d) = Some r2"
    unfolding re_lit_Some_iff by blast
  from re_greedy1_complete [of h is_digit "\<lambda>h. re_lit '')'' (?k2 h)"
      "'')'' @ b @ ''not present'' @ c @ ''pa'' @ d" r2] h this
  obtain r1
    where "?k1 (h @ '')'' @ b @ ''not present'' @ c @ ''pa'' @ d) = Some r1" by blast
  then have "re_lit ''(pa_hash)=('' ?k1 (''(pa_hash)=('' @ h @ '')'' @ b @ ''not present'' @ c @ ''pa'' @ d)
      = Some r1"
    unfolding re_lit_Some_iff by blast
  from re_lazy_dot_complete [of a "re_lit ''(pa_hash)=('' ?k1"
      "''(pa_hash)=('' @ h @ '')'' @ b @ ''not present'' @ c @ ''pa'' @ d" r1] na this
  obtain r0
    where "re_lazy_dot (re_lit ''(pa_hash)=('' ?k1)
             (a @ ''(pa_hash)=('' @ h @ '')'' @ b @ ''not present'' @ c @ ''pa'' @ d) = Some r0"
    by blast
  then have "bad_hash_re line = Some r0"
    unfolding bad_hash_re_def line re_lit_Some_iff by blast
  then show ?thesis by blast
qed


lemma splitlines_from_no_linebreak:
  "l \<in> set (splitlines_from cur s) \<Longrightarrow> \<forall>c \<in> set cur. \<not> is_linebreak c \<Longrightarrow>
   \<forall>c \<in> set l. \<not> is_linebreak c"
proof (induction cur s rule: splitlines_from.induct)
  case (1 cur)
  then show ?case by (simp split: if_splits)
next
  case (2 cur c)
  then show ?case by (auto split: if_splits)
next
  case (3 cur c d cs)
  note mem = \<open>l \<in> set (splitlines_from cur (c # d # cs))\<close>
  note cur = \<open>\<forall>c \<in> set cur. \<not> is_linebreak c\<close>
  show ?case
  proof (cases "c = CHR 0x0D \<and> d = CHR 0x0A")
    case True
    with mem have "l = cur \<or> l \<in> set (splitlines_from [] cs)" by simp
    then show ?thesis
    proof
      assume "l = cur"
      with cur show ?thesis by simp
    next
      assume "l \<in> set (splitlines_from [] cs)"
      from "3.IH"(1) [OF True this] show ?thesis by simp
    qed
  next
    case False
    note nocrlf = this
    show ?thesis
    proof (cases "is_linebreak c")
      case True
      with mem nocrlf have "l = cur \<or> l \<in> set (splitlines_from [] (d # cs))" by auto
      then show ?thesis
      proof
        assume "l = cur"
        with cur show ?thesis by simp
      next
        assume "l \<in> set (splitlines_from [] (d # cs))"
        from "3.IH"(2) [OF nocrlf True this] show ?thesis by simp
      qed
    next
      case False
      with mem nocrlf have m: "l \<in> set (splitlines_from (cur @ [c]) (d # cs))" by auto
      from cur False have "\<forall>x \<in> set (cur @ [c]). \<not> is_linebreak x" by simp
      from "3.IH"(3) [OF nocrlf False m this] show ?thesis .
    qed
  qed
qed

lemma splitlines_no_newline: "l \<in> set (splitlines s) \<Longrightarrow> CHR 0x0A \<notin> set l"
  using splitlines_from_no_linebreak [of l "[]" s]
  by (auto simp: splitlines_def is_linebreak_def)

lemma bad_hash_re_iff_form:
  "CHR 0x0A \<notin> set line \<Longrightarrow> bad_hash_re line \<noteq> None \<longleftrightarrow> (\<exists>h. detail_form line h)"
  using bad_hash_re_sound bad_hash_re_complete by blast

lemma digits_value_nonneg: "0 \<le> digits_value s"
proof -
  have "0 \<le> a \<Longrightarrow> 0 \<le> foldl (\<lambda>a c. 10 * a + int (digit_val c)) a s" for a
    by (induction s arbitrary: a) simp_all
  then show ?thesis by (simp add: digits_value_def)
qed

lemma py_int_digits: "detail_form line h \<Longrightarrow> py_int h = Inr (digits_value h)"
  by (simp add: detail_form_def py_int_def)

lemma submit_curation_on_integrity_error:
  assumes ins: "db_insert \<lparr>cur_tag = tag, cur_text = text, cur_curator = curator, cur_ip = ip,
                  cur_source = source, cur_pa_hash = hash_val, cur_source_hash = ev_hash\<rparr>
                = Inl (IntegrityError msg)"
    and lines: "splitlines msg = first_line # line # more_lines"
  shows "submit_curation db_insert hash_val tag curator ip text ev_hash source =
     (case bad_hash_re line of
        None \<Rightarrow> Inl (IntegrityError msg)
      | Some h \<Rightarrow> if digits_value h = hash_val then Inl (BadHashError h)
                  else Inl (AssertionError HashMismatch))"
proof (cases "bad_hash_re line")
  case None
  with ins lines show ?thesis by (simp add: submit_curation_def)
next
  case (Some h)
  from bad_hash_re_sound [OF Some] have "py_int h = Inr (digits_value h)" by (rule py_int_digits)
  with Some ins lines show ?thesis by (simp add: submit_curation_def)
qed

lemma re_lit_Nil: "re_lit [] k s = k s"
  by (simp add: re_lit_def)

lemma re_lit_Cons_Nil: "re_lit (c # p) k [] = None"
  by (simp add: re_lit_def)

lemma re_lit_Cons_Cons: "re_lit (c # p) k (d # s) = (if c = d then re_lit p k s else None)"
  by (simp add: re_lit_def)

lemmas re_lit_simps = re_lit_Nil re_lit_Cons_Nil re_lit_Cons_Cons

lemma re_lazy_dot_skip:
  "c \<notin> set a \<Longrightarrow> re_lazy_dot (re_lit (c # p) k) s = None \<Longrightarrow>
   re_lazy_dot (re_lit (c # p) k) (a @ s) = None"
  by (induction a) (auto simp: re_lit_simps)

lemma digit_char_is_digit: "d < 10 \<Longrightarrow> is_digit (digit_char d)"
proof -
  assume "d < 10"
  then have "d \<in> {0, 1, 2, 3, 4, 5, 6, 7, 8, 9}" by auto
  then show ?thesis by (auto simp: is_digit_def digit_char_def)
qed

lemma str_nat_digits: "\<forall>c \<in> set (str_nat n). is_digit c"
proof (induction n rule: str_nat.induct)
  case (1 n)
  show ?case
  proof (cases "n < 10")
    case True
    then show ?thesis by (subst str_nat.simps) (simp add: digit_char_is_digit)
  next
    case False
    with "1.IH" have "\<forall>c \<in> set (str_nat (n div 10)). is_digit c" by simp
    with False show ?thesis by (subst str_nat.simps) (simp add: digit_char_is_digit)
  qed
qed

lemma bad_hash_re_negative:
  assumes pre: "CHR ''('' \<notin> set pre" and post: "CHR ''('' \<notin> set post" and neg: "hv < 0"
  shows "bad_hash_re (''DETAIL: '' @ pre @ ''(pa_hash)=('' @ str_int hv @ '')'' @ post) = None"
proof -
  define ds where "ds = str_nat (nat (- hv))"
  let ?K = "re_lit ''(pa_hash)=('' (re_greedy1 is_digit (\<lambda>h.
       re_lit '')'' (re_lazy_dot (re_lit ''not present'' (re_lazy_dot (re_lit ''pa''
         (re_lazy_dot (\<lambda>rest. Some h))))))))"
  have "\<not> is_digit (CHR ''('')" by (simp add: is_digit_def)
  with str_nat_digits [of "nat (- hv)"] have "CHR ''('' \<notin> set ds"
    unfolding ds_def by blast
  with post have tail: "CHR ''('' \<notin> set (CHR ''-'' # ds @ '')'' @ post)" by simp
  have "re_lazy_dot ?K [] = None" by (simp add: re_lit_simps)
  from re_lazy_dot_skip [OF tail this]
  have 1: "re_lazy_dot ?K (CHR ''-'' # ds @ '')'' @ post) = None" by simp
  have 2: "re_lazy_dot ?K (CHR ''('' # CHR ''-'' # ds @ '')'' @ post) = None"
    using 1 by (simp add: re_lit_simps)
  have "CHR ''('' \<notin> set ''pa_hash)=''" by simp
  from re_lazy_dot_skip [OF this 2]
  have 3: "re_lazy_dot ?K (''pa_hash)=(-'' @ ds @ '')'' @ post) = None" by simp
  have 4: "re_lazy_dot ?K (''(pa_hash)=(-'' @ ds @ '')'' @ post) = None"
    using 3 by (simp add: re_lit_simps re_greedy1_def is_digit_def)
  from re_lazy_dot_skip [OF pre 4]
  have "re_lazy_dot ?K (pre @ ''(pa_hash)=(-'' @ ds @ '')'' @ post) = None" .
  then show ?thesis
    using neg by (simp add: bad_hash_re_def str_int_def ds_def re_lit_simps)
qed

lemma fk_12345_lines:
  "splitlines (fk_message ''12345'') =
     [''insert or update on table curation violates foreign key constraint'',
      ''DETAIL:  Key (pa_hash)=(12345) is not present in table pa_statements.'']"
  by (simp add: fk_message_def splitlines_def is_linebreak_def)

lemma fk_12345_match:
  "bad_hash_re ''DETAIL:  Key (pa_hash)=(12345) is not present in table pa_statements.''
     = Some ''12345''"
  by (simp add: bad_hash_re_def re_lit_simps re_greedy1_def is_digit_def)

lemma unique_lines:
  "splitlines unique_message =
     [''duplicate key value violates unique constraint curation_pkey'',
      ''DETAIL:  Key (id)=(3) already exists.'']"
  by (simp add: unique_message_def splitlines_def is_linebreak_def)

lemma unique_no_match:
  "bad_hash_re ''DETAIL:  Key (id)=(3) already exists.'' = None"
  by (simp add: bad_hash_re_def re_lit_simps re_greedy1_def is_digit_def)

lemma str_int_neg_12345: "str_int (- 12345) = ''-12345''"
  by (simp add: str_int_def str_nat.simps digit_char_def)

lemma fk_neg_lines:
  "splitlines (fk_message ''-12345'') =
     [''insert or update on table curation violates foreign key constraint'',
      ''DETAIL: '' @ '' Key '' @ ''(pa_hash)=('' @ ''-12345'' @ '')'' @
        '' is not present in table pa_statements.'']"
  by (simp add: fk_message_def splitlines_def is_linebreak_def)

text \<open>
  C1. When the insertion of \<^verbatim>\<open>submit_curation\<close> raises an integrity error whose message has
  a second line: if that line has the shape
  \<^verbatim>\<open>DETAIL: ... (pa_hash)=(<digits>) ... not present ... pa ...\<close>, the pattern captures such
  digits, they are compared as an integer with \<^verbatim>\<open>hash_val\<close>, and the call raises
  \<^verbatim>\<open>BadHashError\<close> with the captured text when they are equal and fails its assertion when
  they differ; if the line has not that shape, the pattern does not match and the integrity
  error is raised again, unchanged.
\<close>

theorem submit_curation_classifies:
  "db_insert \<lparr>cur_tag = tag, cur_text = text, cur_curator = curator, cur_ip = ip,
               cur_source = source, cur_pa_hash = hash_val, cur_source_hash = ev_hash\<rparr>
     = Inl (IntegrityError msg) \<and>
   splitlines msg = first_line # line # more_lines \<longrightarrow>
     ((\<exists>h. detail_form line h) \<longrightarrow>
        (\<exists>h. detail_form line h \<and> bad_hash_re line = Some h \<and>
           submit_curation db_insert hash_val tag curator ip text ev_hash source =
             (if digits_value h = hash_val then Inl (BadHashError h)
              else Inl (AssertionError HashMismatch)))) \<and>
     (\<not> (\<exists>h. detail_form line h) \<longrightarrow>
        bad_hash_re line = None \<and>
        submit_curation db_insert hash_val tag curator ip text ev_hash source =
          Inl (IntegrityError msg))"
proof (intro impI, elim conjE)
  assume ins: "db_insert \<lparr>cur_tag = tag, cur_text = text, cur_curator = curator, cur_ip = ip,
               cur_source = source, cur_pa_hash = hash_val, cur_source_hash = ev_hash\<rparr>
     = Inl (IntegrityError msg)"
    and lines: "splitlines msg = first_line # line # more_lines"
  note res = submit_curation_on_integrity_error [of db_insert tag "text" curator ip source hash_val
      ev_hash msg first_line line more_lines, OF ins lines]
  from lines have "line \<in> set (splitlines msg)" by simp
  then have nl: "CHR 0x0A \<notin> set line" by (rule splitlines_no_newline)
  show "((\<exists>h. detail_form line h) \<longrightarrow>
        (\<exists>h. detail_form line h \<and> bad_hash_re line = Some h \<and>
           submit_curation db_insert hash_val tag curator ip text ev_hash source =
             (if digits_value h = hash_val then Inl (BadHashError h)
              else Inl (AssertionError HashMismatch)))) \<and>
     (\<not> (\<exists>h. detail_form line h) \<longrightarrow>
        bad_hash_re line = None \<and>
        submit_curation db_insert hash_val tag curator ip text ev_hash source =
          Inl (IntegrityError msg))"
  proof (cases "bad_hash_re line")
    case None
    with bad_hash_re_iff_form [OF nl] have no: "\<not> (\<exists>h. detail_form line h)" by simp
    from res None
    have "submit_curation db_insert hash_val tag curator ip text ev_hash source =
          Inl (IntegrityError msg)"
      by simp
    with no None show ?thesis by blast
  next
    case (Some h)
    from bad_hash_re_sound [OF Some] have form: "detail_form line h" .
    from res Some
    have "submit_curation db_insert hash_val tag curator ip text ev_hash source =
             (if digits_value h = hash_val then Inl (BadHashError h)
              else Inl (AssertionError HashMismatch))"
      by simp
    with form Some show ?thesis by blast
  qed
qed

theorem submit_curation_classifies_witness:
  "submit_curation (failing_insert (fk_message ''12345'')) 12345 ''correct'' ''curator'' ''127.0.0.1''
     None None ''direct_client'' = Inl (BadHashError ''12345'') \<and>
   submit_curation (failing_insert (fk_message ''12345'')) 777 ''correct'' ''curator'' ''127.0.0.1''
     None None ''direct_client'' = Inl (AssertionError HashMismatch) \<and>
   submit_curation (failing_insert unique_message) 12345 ''correct'' ''curator'' ''127.0.0.1''
     None None ''direct_client'' = Inl (IntegrityError unique_message)"
proof -
  let ?line = "''DETAIL:  Key (pa_hash)=(12345) is not present in table pa_statements.''"
  have form: "\<exists>h. detail_form ?line h"
    using bad_hash_re_sound [OF fk_12345_match] by blast
  have val: "digits_value ''12345'' = 12345"
    by (simp add: digits_value_def digit_val_def)
  have ins: "failing_insert msg inp = Inl (IntegrityError msg)" for msg inp
    by (simp add: failing_insert_def)
  from submit_curation_classifies [of "failing_insert (fk_message ''12345'')" "''correct''" None
      "''curator''" "''127.0.0.1''" "''direct_client''" 12345 None "fk_message ''12345''" _ ?line "[]"]
    ins fk_12345_lines form fk_12345_match val
  have 1: "submit_curation (failing_insert (fk_message ''12345'')) 12345 ''correct'' ''curator''
     ''127.0.0.1'' None None ''direct_client'' = Inl (BadHashError ''12345'')"
    by auto
  from submit_curation_classifies [of "failing_insert (fk_message ''12345'')" "''correct''" None
      "''curator''" "''127.0.0.1''" "''direct_client''" 777 None "fk_message ''12345''" _ ?line "[]"]
    ins fk_12345_lines form fk_12345_match val
  have 2: "submit_curation (failing_insert (fk_message ''12345'')) 777 ''correct'' ''curator''
     ''127.0.0.1'' None None ''direct_client'' = Inl (AssertionError HashMismatch)"
    by auto
  have "\<not> (\<exists>h. detail_form ''DETAIL:  Key (id)=(3) already exists.'' h)"
    using bad_hash_re_iff_form [of "''DETAIL:  Key (id)=(3) already exists.''"] unique_no_match
    by simp
  with submit_curation_classifies [of "failing_insert unique_message" "''correct''" None
      "''curator''" "''127.0.0.1''" "''direct_client''" 12345 None unique_message _
      "''DETAIL:  Key (id)=(3) already exists.''" "[]"]
    ins unique_lines
  have 3: "submit_curation (failing_insert unique_message) 12345 ''correct'' ''curator'' ''127.0.0.1''
     None None ''direct_client'' = Inl (IntegrityError unique_message)"
    by auto
  from 1 2 3 show ?thesis by blast
qed

text \<open>
  C10. With an insertion that raises an integrity error, \<^verbatim>\<open>submit_curation\<close> raises
  \<^verbatim>\<open>BadHashError\<close> only for a \<^verbatim>\<open>hash_val\<close> that is not negative; and for a negative
  \<^verbatim>\<open>hash_val\<close> whose detail line reads \<^verbatim>\<open>DETAIL: ... (pa_hash)=(-<digits>) ...\<close>, with no other
  opening bracket on the line, the pattern cannot match and the integrity error is raised
  again, unchanged.
\<close>

theorem negative_hash_unclassified:
  "db_insert \<lparr>cur_tag = tag, cur_text = text, cur_curator = curator, cur_ip = ip,
               cur_source = source, cur_pa_hash = hash_val, cur_source_hash = ev_hash\<rparr>
     = Inl (IntegrityError msg) \<longrightarrow>
     (\<forall>h. submit_curation db_insert hash_val tag curator ip text ev_hash source =
            Inl (BadHashError h) \<longrightarrow> 0 \<le> hash_val) \<and>
     (hash_val < 0 \<and> CHR ''('' \<notin> set pre \<and> CHR ''('' \<notin> set post \<and>
      splitlines msg =
        first_line # (''DETAIL: '' @ pre @ ''(pa_hash)=('' @ str_int hash_val @ '')'' @ post) #
        more_lines \<longrightarrow>
        submit_curation db_insert hash_val tag curator ip text ev_hash source =
          Inl (IntegrityError msg))"
proof (intro impI conjI allI)
  fix h
  assume ins: "db_insert \<lparr>cur_tag = tag, cur_text = text, cur_curator = curator, cur_ip = ip,
               cur_source = source, cur_pa_hash = hash_val, cur_source_hash = ev_hash\<rparr>
     = Inl (IntegrityError msg)"
    and bad: "submit_curation db_insert hash_val tag curator ip text ev_hash source =
            Inl (BadHashError h)"
  from ins bad have "py_int h = Inr hash_val"
    by (auto simp: submit_curation_def py_int_def
        split: list.splits option.splits sum.splits if_splits)
  then have "hash_val = digits_value h" by (auto simp: py_int_def split: if_splits)
  then show "0 \<le> hash_val" by (simp add: digits_value_nonneg)
next
  assume ins: "db_insert \<lparr>cur_tag = tag, cur_text = text, cur_curator = curator, cur_ip = ip,
               cur_source = source, cur_pa_hash = hash_val, cur_source_hash = ev_hash\<rparr>
     = Inl (IntegrityError msg)"
    and hyp: "hash_val < 0 \<and> CHR ''('' \<notin> set pre \<and> CHR ''('' \<notin> set post \<and>
      splitlines msg =
        first_line # (''DETAIL: '' @ pre @ ''(pa_hash)=('' @ str_int hash_val @ '')'' @ post) #
        more_lines"
  from hyp bad_hash_re_negative [of pre post hash_val]
  have "bad_hash_re (''DETAIL: '' @ pre @ ''(pa_hash)=('' @ str_int hash_val @ '')'' @ post) = None"
    by blast
  with ins hyp show "submit_curation db_insert hash_val tag curator ip text ev_hash source =
          Inl (IntegrityError msg)"
    by (simp add: submit_curation_def)
qed

theorem negative_hash_unclassified_witness:
  "submit_curation (failing_insert (fk_message (str_int (- 12345)))) (- 12345) ''correct'' ''curator''
     ''127.0.0.1'' None None ''direct_client'' = Inl (IntegrityError (fk_message (str_int (- 12345)))) \<and>
   submit_curation (failing_insert (fk_message ''12345'')) 12345 ''correct'' ''curator'' ''127.0.0.1''
     None None ''direct_client'' = Inl (BadHashError ''12345'') \<and> (0::int) \<le> 12345"
proof -
  have ins: "failing_insert msg inp = Inl (IntegrityError msg)" for msg inp
    by (simp add: failing_insert_def)
  have 1: "submit_curation (failing_insert (fk_message (str_int (- 12345)))) (- 12345) ''correct''
     ''curator'' ''127.0.0.1'' None None ''direct_client'' =
     Inl (IntegrityError (fk_message (str_int (- 12345))))"
    using negative_hash_unclassified [of "failing_insert (fk_message (str_int (- 12345)))"
        "''correct''" None "''curator''" "''127.0.0.1''" "''direct_client''" "- 12345" None
        "fk_message (str_int (- 12345))" "'' Key ''" "'' is not present in table pa_statements.''"
        "''insert or update on table curation violates foreign key constraint''" "[]"]
      ins fk_neg_lines
    unfolding str_int_neg_12345 by simp
  have 2: "submit_curation (failing_insert (fk_message ''12345'')) 12345 ''correct'' ''curator''
     ''127.0.0.1'' None None ''direct_client'' = Inl (BadHashError ''12345'')"
    using ins fk_12345_lines fk_12345_match
    by (simp add: submit_curation_def py_int_def is_digit_def digits_value_def digit_val_def)
  from negative_hash_unclassified [of "failing_insert (fk_message ''12345'')"
        "''correct''" None "''curator''" "''127.0.0.1''" "''direct_client''" 12345 None
        "fk_message ''12345''"] ins 2
  have "(0::int) \<le> 12345" by blast
  with 1 2 show ?thesis by blast
qed

section \<open>Properties of get_grounding_curations\<close>

lemma re_greedy_max:
  "re_greedy P k acc s = Some r \<Longrightarrow>
   \<exists>a b. s = a @ b \<and> (\<forall>c \<in> set a. P c) \<and> k (acc @ a) b = Some r \<and>
     (\<forall>a' b'. a' \<noteq> [] \<longrightarrow> b = a' @ b' \<longrightarrow> (\<forall>c \<in> set a'. P c) \<longrightarrow> k (acc @ a @ a') b' = None)"
proof (induction s arbitrary: acc)
  case Nil
  then show ?case by simp
next
  case (Cons c cs)
  show ?case
  proof (cases "P c \<and> re_greedy P k (acc @ [c]) cs \<noteq> None")
    case True
    with Cons.prems have "re_greedy P k (acc @ [c]) cs = Some r" by auto
    from Cons.IH [OF this] obtain a b where ab: "cs = a @ b" "\<forall>c \<in> set a. P c"
      "k ((acc @ [c]) @ a) b = Some r"
      and mx: "\<forall>a' b'. a' \<noteq> [] \<longrightarrow> b = a' @ b' \<longrightarrow> (\<forall>c \<in> set a'. P c) \<longrightarrow>
                 k ((acc @ [c]) @ a @ a') b' = None"
      by blast
    from ab True mx
    have "c # cs = (c # a) @ b \<and> (\<forall>x \<in> set (c # a). P x) \<and> k (acc @ c # a) b = Some r \<and>
      (\<forall>a' b'. a' \<noteq> [] \<longrightarrow> b = a' @ b' \<longrightarrow> (\<forall>c \<in> set a'. P c) \<longrightarrow>
         k (acc @ (c # a) @ a') b' = None)"
      by simp
    then show ?thesis by blast
  next
    case False
    with Cons.prems have here: "k acc (c # cs) = Some r" by (auto split: if_splits)
    have mx: "k (acc @ a') b' = None"
      if a': "a' \<noteq> []" "c # cs = a' @ b'" "\<forall>c \<in> set a'. P c" for a' b'
    proof -
      from a' obtain a'' where a'': "a' = c # a''" "cs = a'' @ b'"
        by (cases a') auto
      with a' have pc: "P c" and pa: "\<forall>c \<in> set a''. P c" by simp_all
      with False have none: "re_greedy P k (acc @ [c]) cs = None" by simp
      show ?thesis
      proof (cases "k (acc @ a') b'")
        case None
        then show ?thesis .
      next
        case (Some r')
        with a'' have "k ((acc @ [c]) @ a'') b' = Some r'" by simp
        from re_greedy_complete [of a'' P k "acc @ [c]" b' r'] pa this a''(2) none
        show ?thesis by simp
      qed
    qed
    from here mx
    have "c # cs = [] @ (c # cs) \<and> (\<forall>x \<in> set []. P x) \<and> k (acc @ []) (c # cs) = Some r \<and>
      (\<forall>a' b'. a' \<noteq> [] \<longrightarrow> c # cs = a' @ b' \<longrightarrow> (\<forall>c \<in> set a'. P c) \<longrightarrow>
         k (acc @ [] @ a') b' = None)"
      by simp
    then show ?thesis by blast
  qed
qed

lemma re_greedy1_max:
  assumes m: "re_greedy1 P k s = Some r"
  shows "\<exists>a b. s = a @ b \<and> a \<noteq> [] \<and> (\<forall>c \<in> set a. P c) \<and> k a b = Some r \<and>
     (\<forall>a' b'. a' \<noteq> [] \<longrightarrow> b = a' @ b' \<longrightarrow> (\<forall>c \<in> set a'. P c) \<longrightarrow> k (a @ a') b' = None)"
proof -
  from m obtain c cs where s: "s = c # cs" and c: "P c" and g: "re_greedy P k [c] cs = Some r"
    by (auto simp: re_greedy1_def split: list.splits if_splits)
  from re_greedy_max [OF g] obtain a b
    where ab: "cs = a @ b" "\<forall>c \<in> set a. P c" "k ([c] @ a) b = Some r"
      and mx: "\<forall>a' b'. a' \<noteq> [] \<longrightarrow> b = a' @ b' \<longrightarrow> (\<forall>c \<in> set a'. P c) \<longrightarrow>
                 k ([c] @ a @ a') b' = None"
    by blast
  from s c ab mx
  have "s = (c # a) @ b \<and> c # a \<noteq> [] \<and> (\<forall>x \<in> set (c # a). P x) \<and> k (c # a) b = Some r \<and>
     (\<forall>a' b'. a' \<noteq> [] \<longrightarrow> b = a' @ b' \<longrightarrow> (\<forall>c \<in> set a'. P c) \<longrightarrow> k ((c # a) @ a') b' = None)"
    by simp
  then show ?thesis by blast
qed

lemma grounding_re_sound:
  assumes m: "grounding_re s = Some (txt, ids)"
  shows "s = ''['' @ txt @ ''] -> '' @ ids \<and> CHR 0x0A \<notin> set txt \<and> ids \<noteq> [] \<and> CHR '' '' \<notin> set ids"
proof -
  let ?k2 = "\<lambda>txt. re_greedy1 (\<lambda>c. c \<noteq> CHR '' '') (\<lambda>dbid_str. re_end (txt, dbid_str))"
  let ?k1 = "\<lambda>txt. re_lit ''] -> '' (?k2 txt)"
  from m obtain t1 where t1: "s = ''['' @ t1"
    and m1: "re_greedy (\<lambda>c. c \<noteq> CHR 0x0A) ?k1 [] t1 = Some (txt, ids)"
    unfolding grounding_re_def re_lit_Some_iff by blast
  from re_greedy_sound [OF m1] obtain a t2 where t2: "t1 = a @ t2" and a: "\<forall>c \<in> set a. c \<noteq> CHR 0x0A"
    and m2: "?k1 ([] @ a) t2 = Some (txt, ids)" by blast
  from m2 obtain t3 where t3: "t2 = ''] -> '' @ t3" and m3: "?k2 a t3 = Some (txt, ids)"
    unfolding re_lit_Some_iff by auto
  from re_greedy1_max [OF m3] obtain g t4 where t4: "t3 = g @ t4" and g: "g \<noteq> []"
    "\<forall>c \<in> set g. c \<noteq> CHR '' ''" and m4: "re_end (a, g) t4 = Some (txt, ids)"
    and mx: "\<forall>a' b'. a' \<noteq> [] \<longrightarrow> t4 = a' @ b' \<longrightarrow> (\<forall>c \<in> set a'. c \<noteq> CHR '' '') \<longrightarrow>
               re_end (a, g @ a') b' = None"
    by blast
  from m4 have eq: "a = txt" "g = ids" and t4e: "t4 = [] \<or> t4 = [CHR 0x0A]"
    by (auto simp: re_end_def split: if_splits)
  have t4n: "t4 = []"
  proof (rule ccontr)
    assume "t4 \<noteq> []"
    with t4e have "t4 = [CHR 0x0A] @ []" by simp
    from mx [rule_format, of "[CHR 0x0A]" "[]", OF _ this]
    have "re_end (a, g @ [CHR 0x0A]) [] = None" by simp
    then show False by (simp add: re_end_def)
  qed
  have "s = ''['' @ a @ ''] -> '' @ g"
    by (simp only: t1 t2 t3 t4 t4n append_Nil2 append_assoc)
  then have 1: "s = ''['' @ txt @ ''] -> '' @ ids" by (simp only: eq)
  from a have 2: "CHR 0x0A \<notin> set txt" unfolding eq(1) by blast
  from g(1) have 3: "ids \<noteq> []" unfolding eq(2) .
  from g(2) have 4: "CHR '' '' \<notin> set ids" unfolding eq(2) by blast
  show ?thesis by (intro conjI) (rule 1 2 3 4)+
qed

lemma grounding_re_complete:
  assumes nonl: "CHR 0x0A \<notin> set txt" and ids: "ids \<noteq> []" "CHR '' '' \<notin> set ids"
  shows "\<exists>r. grounding_re (''['' @ txt @ ''] -> '' @ ids) = Some r"
proof -
  let ?k2 = "\<lambda>txt. re_greedy1 (\<lambda>c. c \<noteq> CHR '' '') (\<lambda>dbid_str. re_end (txt, dbid_str))"
  let ?k1 = "\<lambda>txt. re_lit ''] -> '' (?k2 txt)"
  have "re_end (txt, ids) [] = Some (txt, ids)" by (simp add: re_end_def)
  from re_greedy1_complete [of ids "\<lambda>c. c \<noteq> CHR '' ''" "\<lambda>dbid_str. re_end (txt, dbid_str)" "[]"
      "(txt, ids)"] ids this
  obtain r2 where "?k2 txt ids = Some r2" by auto
  then have "?k1 ([] @ txt) (''] -> '' @ ids) = Some r2"
    unfolding re_lit_Some_iff by auto
  from re_greedy_complete [of "txt" "\<lambda>c. c \<noteq> CHR 0x0A" ?k1 "[]" "''] -> '' @ ids" r2] nonl this
  obtain r1 where "re_greedy (\<lambda>c. c \<noteq> CHR 0x0A) ?k1 [] (txt @ ''] -> '' @ ids) = Some r1"
    by auto
  then have "grounding_re (''['' @ txt @ ''] -> '' @ ids) = Some r1"
    unfolding grounding_re_def re_lit_Some_iff by blast
  then show ?thesis by blast
qed

lemma last_space_split_unique:
  assumes eq: "xs @ CHR '' '' # ys = xs' @ CHR '' '' # ys'"
    and ys: "CHR '' '' \<notin> set ys" and ys': "CHR '' '' \<notin> set ys'"
  shows "xs = xs' \<and> ys = ys'"
proof -
  have tw: "takeWhile (\<lambda>c. c \<noteq> CHR '' '') (rev (pre @ CHR '' '' # bs)) = rev bs"
    if "CHR '' '' \<notin> set bs" for pre bs
    using that by (auto simp: takeWhile_tail)
  have "takeWhile (\<lambda>c. c \<noteq> CHR '' '') (rev (xs @ CHR '' '' # ys)) =
        takeWhile (\<lambda>c. c \<noteq> CHR '' '') (rev (xs' @ CHR '' '' # ys'))"
    using eq by (simp only:)
  then have "rev ys = rev ys'" unfolding tw [OF ys] tw [OF ys'] .
  then have "ys = ys'" by simp
  with eq show ?thesis by simp
qed

lemma grounding_re_iff:
  "grounding_re s = Some (txt, ids) \<longleftrightarrow>
     s = ''['' @ txt @ ''] -> '' @ ids \<and> CHR 0x0A \<notin> set txt \<and> ids \<noteq> [] \<and> CHR '' '' \<notin> set ids"
proof
  assume "grounding_re s = Some (txt, ids)"
  then show "s = ''['' @ txt @ ''] -> '' @ ids \<and> CHR 0x0A \<notin> set txt \<and> ids \<noteq> [] \<and> CHR '' '' \<notin> set ids"
    by (rule grounding_re_sound)
next
  assume form: "s = ''['' @ txt @ ''] -> '' @ ids \<and> CHR 0x0A \<notin> set txt \<and> ids \<noteq> [] \<and> CHR '' '' \<notin> set ids"
  with grounding_re_complete [of "txt" ids] obtain txt' ids'
    where m: "grounding_re s = Some (txt', ids')" by auto
  from grounding_re_sound [OF m] have form': "s = ''['' @ txt' @ ''] -> '' @ ids'"
    "CHR '' '' \<notin> set ids'" by simp_all
  from form form'(1) have "(txt @ ''] ->'') @ CHR '' '' # ids = (txt' @ ''] ->'') @ CHR '' '' # ids'"
    by simp
  from last_space_split_unique [OF this] form form'(2)
  have "txt @ ''] ->'' = txt' @ ''] ->'' \<and> ids = ids'" by blast
  then have "txt = txt' \<and> ids = ids'" by simp
  with m show "grounding_re s = Some (txt, ids)" by simp
qed


lemma split_first_length: "length (split_first sep e) = 2 \<longleftrightarrow> sep \<in> set e"
  by (simp add: split_first_def)

lemma split_first_colon:
  "CHR '':'' \<in> set e \<Longrightarrow> split_first CHR '':'' e = [fst (ns_id e), snd (ns_id e)]"
  by (simp add: split_first_def ns_id_def)

lemma split_first_no_colon: "CHR '':'' \<notin> set e \<Longrightarrow> split_first CHR '':'' e = [e]"
  by (simp add: split_first_def)

lemma dict_of_entries_split:
  "dict_of_entries (map (split_first CHR '':'') es) m =
     (if \<forall>e \<in> set es. CHR '':'' \<in> set e then Some (m ++ map_of (rev (map ns_id es))) else None)"
proof (induction es arbitrary: m)
  case Nil
  then show ?case by simp
next
  case (Cons e es)
  show ?case
  proof (cases "CHR '':'' \<in> set e")
    case True
    have "m(fst (ns_id e) \<mapsto> snd (ns_id e)) ++ map_of (rev (map ns_id es)) =
          m ++ map_of (rev (map ns_id es) @ [ns_id e])"
      by (cases "ns_id e") (simp add: map_add_def fun_eq_iff split: option.splits)
    with True Cons.IH show ?thesis by (simp add: split_first_colon del: fun_upd_apply)
  next
    case False
    then show ?thesis by (simp add: split_first_no_colon)
  qed
qed

lemma parse_dbids_iff:
  "parse_dbids ids = Some dbids \<longleftrightarrow>
     (\<forall>e \<in> set (split_char CHR ''|'' ids). CHR '':'' \<in> set e) \<and>
     dbids = map_of (rev (map ns_id (split_char CHR ''|'' ids)))"
  by (auto simp: parse_dbids_def dict_of_entries_split)

lemma py_strip_Nil: "py_strip [] = []"
  by (simp add: py_strip_def)

lemma grounding_entry_iff:
  "grounding_entry cur = Some (txt, dbids) \<longleftrightarrow>
     (\<exists>t ids. cur_text cur = Some t \<and> py_strip t = ''['' @ txt @ ''] -> '' @ ids \<and>
        CHR 0x0A \<notin> set txt \<and> ids \<noteq> [] \<and> CHR '' '' \<notin> set ids \<and>
        (\<forall>e \<in> set (split_char CHR ''|'' ids). CHR '':'' \<in> set e) \<and>
        dbids = map_of (rev (map ns_id (split_char CHR ''|'' ids))))"
proof
  assume e: "grounding_entry cur = Some (txt, dbids)"
  then obtain t ids where t: "cur_text cur = Some t"
    and m: "grounding_re (py_strip t) = Some (txt, ids)" and p: "parse_dbids ids = Some dbids"
    by (auto simp: grounding_entry_def split: option.splits if_splits)
  from iffD1 [OF grounding_re_iff m]
  have "py_strip t = ''['' @ txt @ ''] -> '' @ ids \<and> CHR 0x0A \<notin> set txt \<and> ids \<noteq> [] \<and>
      CHR '' '' \<notin> set ids" .
  moreover from iffD1 [OF parse_dbids_iff p]
  have "(\<forall>e \<in> set (split_char CHR ''|'' ids). CHR '':'' \<in> set e) \<and>
     dbids = map_of (rev (map ns_id (split_char CHR ''|'' ids)))" .
  ultimately show "\<exists>t ids. cur_text cur = Some t \<and> py_strip t = ''['' @ txt @ ''] -> '' @ ids \<and>
        CHR 0x0A \<notin> set txt \<and> ids \<noteq> [] \<and> CHR '' '' \<notin> set ids \<and>
        (\<forall>e \<in> set (split_char CHR ''|'' ids). CHR '':'' \<in> set e) \<and>
        dbids = map_of (rev (map ns_id (split_char CHR ''|'' ids)))"
    using t by (intro exI [of _ t] exI [of _ ids]) simp
next
  assume "\<exists>t ids. cur_text cur = Some t \<and> py_strip t = ''['' @ txt @ ''] -> '' @ ids \<and>
        CHR 0x0A \<notin> set txt \<and> ids \<noteq> [] \<and> CHR '' '' \<notin> set ids \<and>
        (\<forall>e \<in> set (split_char CHR ''|'' ids). CHR '':'' \<in> set e) \<and>
        dbids = map_of (rev (map ns_id (split_char CHR ''|'' ids)))"
  then obtain t ids where t: "cur_text cur = Some t"
    and form: "py_strip t = ''['' @ txt @ ''] -> '' @ ids \<and> CHR 0x0A \<notin> set txt \<and> ids \<noteq> [] \<and>
      CHR '' '' \<notin> set ids"
    and wf: "(\<forall>e \<in> set (split_char CHR ''|'' ids). CHR '':'' \<in> set e) \<and>
     dbids = map_of (rev (map ns_id (split_char CHR ''|'' ids)))"
    by (elim exE conjE) (intro that conjI; assumption)
  from iffD2 [OF grounding_re_iff form]
  have m: "grounding_re (py_strip t) = Some (txt, ids)" .
  from iffD2 [OF parse_dbids_iff wf] have p: "parse_dbids ids = Some dbids" .
  from form have "py_strip t \<noteq> []" by simp
  then have "t \<noteq> []" using py_strip_Nil by auto
  with t m p show "grounding_entry cur = Some (txt, dbids)"
    by (simp add: grounding_entry_def)
qed

lemma map_add_snoc: "m(k \<mapsto> v) ++ map_of xs = m ++ map_of (xs @ [(k, v)])"
  by (simp add: map_add_def fun_eq_iff split: option.splits)

lemma grounding_loop_eq:
  "grounding_loop curs g = g ++ map_of (rev (List.map_filter grounding_entry curs))"
proof (induction curs arbitrary: g)
  case Nil
  then show ?case by (simp add: List.map_filter_simps)
next
  case (Cons cur curs)
  show ?case
  proof (cases "grounding_entry cur")
    case None
    with Cons.IH show ?thesis by (simp add: List.map_filter_simps)
  next
    case (Some e)
    obtain mention dbids where e: "e = (mention, dbids)" by (cases e)
    have step: "grounding_loop (cur # curs) g = grounding_loop curs (g(mention \<mapsto> dbids))"
      using Some e by simp
    have mf: "List.map_filter grounding_entry (cur # curs) =
              (mention, dbids) # List.map_filter grounding_entry curs"
      using Some e by (simp add: List.map_filter_simps)
    show ?thesis
      unfolding step mf Cons.IH by (simp only: rev.simps map_add_snoc)
  qed
qed

lemma get_grounding_curations_eq:
  "get_grounding_curations db =
     map_of (rev (List.map_filter grounding_entry (get_curations_tag db ''grounding'')))"
  by (simp add: get_grounding_curations_def grounding_loop_eq)

lemma last_curation_wins:
  assumes db: "db = before @ cur # after" and tag: "cur_tag cur = ''grounding''"
    and e: "grounding_entry cur = Some (txt, dbids)"
    and later: "\<forall>c \<in> set after. cur_tag c = ''grounding'' \<longrightarrow>
                 (\<forall>d. grounding_entry c \<noteq> Some (txt, d))"
  shows "get_grounding_curations db txt = Some dbids"
proof -
  let ?G = "\<lambda>cs. List.map_filter grounding_entry (get_curations_tag cs ''grounding'')"
  have split: "?G db = ?G before @ (txt, dbids) # ?G after"
    using db tag e by (simp add: get_curations_tag_def List.map_filter_def)
  have "txt \<notin> fst ` set (?G after)"
  proof
    assume "txt \<in> fst ` set (?G after)"
    then obtain d where "(txt, d) \<in> set (?G after)" by auto
    then obtain c where "c \<in> set after" "cur_tag c = ''grounding''" "grounding_entry c = Some (txt, d)"
      by (auto simp: List.map_filter_def get_curations_tag_def)
    with later show False by blast
  qed
  then have "map_of (rev (?G after)) txt = None"
    by (simp add: map_of_eq_None_iff)
  then show ?thesis
    unfolding get_grounding_curations_eq split by (simp add: map_add_def)
qed

lemmas grounding_eval =
  grounding_cur_def grounding_entry_def py_strip_def py_isspace_def grounding_re_def re_lit_simps
  re_greedy1_def re_end_def parse_dbids_def split_first_def

lemma sample_entries:
  "grounding_entry (grounding_cur ''  [fever] -> MESH:D005334|TEXT:fever  '') =
     Some (''fever'', [''MESH'' \<mapsto> ''D005334'', ''TEXT'' \<mapsto> ''fever''])"
  "grounding_entry (grounding_cur ''fever is MESH:D005334'') = None"
  "grounding_entry (grounding_cur ''[fever] -> MESH'') = None"
  by (simp_all add: grounding_eval)

text \<open>
  C6. \<^verbatim>\<open>get_grounding_curations\<close> returns the mapping built from the curations tagged
  \<^verbatim>\<open>grounding\<close>, in the order processed, a later entry for a mention replacing an earlier
  one. A curation contributes an entry exactly when its stripped text is
  \<^verbatim>\<open>[<mention>] -> <ids>\<close> (the mention on one line, the ID list nonempty and free of blanks)
  and every \<^verbatim>\<open>|\<close>-separated entry of the list has a colon; the entry maps the mention to the
  dict from namespace to identifier. A curation with no text, empty text, a text of another
  shape or an entry without colon contributes nothing. The text
  \<^verbatim>\<open>[fever] -> MESH:D005334|TEXT:fever\<close> yields \<^verbatim>\<open>{"fever": {"MESH": "D005334", "TEXT": "fever"}}\<close>.
\<close>

theorem grounding_curations_spec:
  "get_grounding_curations db =
     map_of (rev (List.map_filter grounding_entry (get_curations_tag db ''grounding''))) \<and>
   (cur_text cur = None \<or> cur_text cur = Some [] \<longrightarrow> grounding_entry cur = None) \<and>
   (grounding_entry cur = Some (txt, dbids) \<longleftrightarrow>
      (\<exists>t ids. cur_text cur = Some t \<and> py_strip t = ''['' @ txt @ ''] -> '' @ ids \<and>
         CHR 0x0A \<notin> set txt \<and> ids \<noteq> [] \<and> CHR '' '' \<notin> set ids \<and>
         (\<forall>e \<in> set (split_char CHR ''|'' ids). CHR '':'' \<in> set e) \<and>
         dbids = map_of (rev (map ns_id (split_char CHR ''|'' ids))))) \<and>
   (db = before @ last_cur # after \<and> cur_tag last_cur = ''grounding'' \<and>
    grounding_entry last_cur = Some (mention, ids_of_last) \<and>
    (\<forall>c \<in> set after. cur_tag c = ''grounding'' \<longrightarrow> (\<forall>d. grounding_entry c \<noteq> Some (mention, d)))
      \<longrightarrow> get_grounding_curations db mention = Some ids_of_last) \<and>
   get_grounding_curations [grounding_cur ''[fever] -> MESH:D005334|TEXT:fever''] ''fever'' =
     Some [''MESH'' \<mapsto> ''D005334'', ''TEXT'' \<mapsto> ''fever'']"
proof (intro conjI)
  show "get_grounding_curations db =
     map_of (rev (List.map_filter grounding_entry (get_curations_tag db ''grounding'')))"
    by (rule get_grounding_curations_eq)
  show "cur_text cur = None \<or> cur_text cur = Some [] \<longrightarrow> grounding_entry cur = None"
    by (auto simp: grounding_entry_def)
  show "grounding_entry cur = Some (txt, dbids) \<longleftrightarrow>
      (\<exists>t ids. cur_text cur = Some t \<and> py_strip t = ''['' @ txt @ ''] -> '' @ ids \<and>
         CHR 0x0A \<notin> set txt \<and> ids \<noteq> [] \<and> CHR '' '' \<notin> set ids \<and>
         (\<forall>e \<in> set (split_char CHR ''|'' ids). CHR '':'' \<in> set e) \<and>
         dbids = map_of (rev (map ns_id (split_char CHR ''|'' ids))))"
    by (rule grounding_entry_iff)
  show "db = before @ last_cur # after \<and> cur_tag last_cur = ''grounding'' \<and>
    grounding_entry last_cur = Some (mention, ids_of_last) \<and>
    (\<forall>c \<in> set after. cur_tag c = ''grounding'' \<longrightarrow> (\<forall>d. grounding_entry c \<noteq> Some (mention, d)))
      \<longrightarrow> get_grounding_curations db mention = Some ids_of_last"
    using last_curation_wins [of db before last_cur after mention ids_of_last] by (intro impI) simp
  show "get_grounding_curations [grounding_cur ''[fever] -> MESH:D005334|TEXT:fever''] ''fever'' =
     Some [''MESH'' \<mapsto> ''D005334'', ''TEXT'' \<mapsto> ''fever'']"
    by (simp add: get_grounding_curations_def get_curations_tag_def grounding_eval)
qed

theorem grounding_curations_spec_witness:
  "grounding_entry (grounding_cur ''  [fever] -> MESH:D005334|TEXT:fever  '') =
     Some (''fever'', [''MESH'' \<mapsto> ''D005334'', ''TEXT'' \<mapsto> ''fever'']) \<and>
   grounding_entry (grounding_cur ''fever is MESH:D005334'') = None \<and>
   grounding_entry (grounding_cur ''[fever] -> MESH'') = None \<and>
   grounding_entry ((grounding_cur ''[fever] -> MESH'')\<lparr>cur_text := None\<rparr>) = None \<and>
   get_grounding_curations sample_curations ''fever'' =
     Some [''MESH'' \<mapsto> ''D005334'', ''TEXT'' \<mapsto> ''fever'']"
proof -
  note spec = grounding_curations_spec [of sample_curations
      "(grounding_cur ''[fever] -> MESH'')\<lparr>cur_text := None\<rparr>" _ _
      "[grounding_cur ''[fever] -> TEXT:pyrexia'',
        (grounding_cur ''[fever] -> MESH:D000000'')\<lparr>cur_tag := ''correct''\<rparr>]"
      "grounding_cur ''  [fever] -> MESH:D005334|TEXT:fever  ''"
      "[grounding_cur ''fever is MESH:D005334'', grounding_cur ''[fever] -> MESH'']"
      "''fever''" "[''MESH'' \<mapsto> ''D005334'', ''TEXT'' \<mapsto> ''fever'']"]
  have none: "grounding_entry ((grounding_cur ''[fever] -> MESH'')\<lparr>cur_text := None\<rparr>) = None"
    using spec by simp
  have tag: "cur_tag (grounding_cur t) = ''grounding''" for t
    by (simp add: grounding_cur_def)
  note last = spec [THEN conjunct2, THEN conjunct2, THEN conjunct2, THEN conjunct1, rule_format]
  have "get_grounding_curations sample_curations ''fever'' =
     Some [''MESH'' \<mapsto> ''D005334'', ''TEXT'' \<mapsto> ''fever'']"
    by (rule last) (simp add: sample_curations_def sample_entries tag)
  with none sample_entries show ?thesis by simp
qed

section \<open>Properties of the resolution of exact duplicates\<close>

lemma py_len_0: "py_len xs = 0 \<longleftrightarrow> xs = []"
  by (simp add: py_len_def)

lemma py_len_card: "py_len xs = card (set xs)"
  by (simp add: py_len_def card_set)

lemma py_len_1: "py_len xs = 1 \<Longrightarrow> set xs = {hd xs}"
proof -
  assume "py_len xs = 1"
  then have c: "card (set xs) = 1" by (simp add: py_len_card)
  then obtain x where x: "set xs = {x}" by (auto simp: card_1_singleton_iff)
  then have "xs \<noteq> []" by auto
  then have "hd xs \<in> set xs" by simp
  with x show ?thesis by simp
qed

lemma py_len_filter: "py_len (filter P xs) = card {x \<in> set xs. P x}"
  by (simp add: py_len_card)

lemma rdg_choice_mem:
  "valid_pop pop \<Longrightarrow> S \<noteq> [] \<Longrightarrow> rdg_choice pop linked S \<in> set S"
proof -
  assume vp: "valid_pop pop" and ne: "S \<noteq> []"
  show ?thesis
  proof (cases "filter (\<lambda>tpl. fst tpl \<in> linked) S")
    case Nil
    with vp ne show ?thesis by (simp add: rdg_choice_def valid_pop_def)
  next
    case (Cons t ts)
    then have "t \<in> set (filter (\<lambda>tpl. fst tpl \<in> linked) S)" by simp
    then have "t \<in> set S" by simp
    with Cons ne show ?thesis by (simp add: rdg_choice_def)
  qed
qed

lemma rdg_choice_linked:
  assumes "linked_tpls linked S = {u}"
  shows "rdg_choice pop linked S = u"
proof -
  from assms have f: "set (filter (\<lambda>tpl. fst tpl \<in> linked) S) = {u}"
    by (simp add: linked_tpls_def)
  then obtain t ts where c: "filter (\<lambda>tpl. fst tpl \<in> linked) S = t # ts"
    by (cases "filter (\<lambda>tpl. fst tpl \<in> linked) S") auto
  with f have t: "t = u" by auto
  show ?thesis
  proof (cases "py_len S = 1")
    case True
    then have "set S = {hd S}" by (rule py_len_1)
    moreover from assms have "u \<in> set S" by (auto simp: linked_tpls_def)
    ultimately have "hd S = u" by simp
    with True show ?thesis by (simp add: rdg_choice_def)
  next
    case False
    with c t show ?thesis by (simp add: rdg_choice_def)
  qed
qed

text \<open>
  One round of the loop, in terms of the linked members of the group.
\<close>

lemma detect_loop_step:
  "detect_exact_duplicates_loop pop (S # itr) linked (K, D) =
     (if 1 < card (linked_tpls linked S) then Inl (AssertionError DuplicateDeduplicated)
      else if S = [] then detect_exact_duplicates_loop pop itr linked (K, D)
      else detect_exact_duplicates_loop pop itr linked
             (insert (rdg_choice pop linked S) K, D \<union> (set S - {rdg_choice pop linked S})))"
proof -
  let ?pref = "filter (\<lambda>tpl. fst tpl \<in> linked) S"
  have lp: "py_len ?pref = card (linked_tpls linked S)"
    by (simp add: py_len_filter linked_tpls_def)
  have le: "card (linked_tpls linked S) \<le> py_len S"
    unfolding py_len_card by (rule card_mono) (auto simp: linked_tpls_def)
  have rhs: "(if 1 < card (linked_tpls linked S) then A else if S = [] then B else C) = C"
    if "\<not> 1 < card (linked_tpls linked S)" "S \<noteq> []" for A B C :: "'x"
    using that by simp
  consider (many) "1 < card (linked_tpls linked S)"
    | (empty) "S = []"
    | (single) "S \<noteq> []" "py_len S = 1"
    | (none) "py_len S \<noteq> 0" "py_len S \<noteq> 1" "?pref = []"
    | (one) "py_len S \<noteq> 0" "py_len S \<noteq> 1" "?pref \<noteq> []" "py_len ?pref = 1"
  proof -
    have "py_len ?pref = 0 \<longleftrightarrow> ?pref = []" by (rule py_len_0)
    moreover have "py_len S = 0 \<longleftrightarrow> S = []" by (rule py_len_0)
    ultimately show ?thesis using lp that by (cases "py_len ?pref"; cases "py_len S") auto
  qed
  then show ?thesis
  proof cases
    case many
    with le have "py_len S \<noteq> 0" "py_len S \<noteq> 1" by simp_all
    moreover from many lp have "py_len ?pref \<noteq> 0" "py_len ?pref \<noteq> 1" by simp_all
    ultimately have "detect_exact_duplicates_loop pop (S # itr) linked (K, D) =
      Inl (AssertionError DuplicateDeduplicated)"
      by (simp only: detect_exact_duplicates_loop.simps Let_def if_False)
    with many show ?thesis by simp
  next
    case empty
    then have "card (linked_tpls linked S) = 0" by (simp add: linked_tpls_def)
    with empty show ?thesis by (simp add: py_len_def)
  next
    case single
    from single(2) have S: "set S = {hd S}" by (rule py_len_1)
    from single(2) have ch: "rdg_choice pop linked S = hd S" by (simp add: rdg_choice_def)
    from le single(2) have nm: "\<not> 1 < card (linked_tpls linked S)" by simp
    have eqK: "K \<union> set S = insert (rdg_choice pop linked S) K" using S ch by auto
    have eqD: "D = D \<union> (set S - {rdg_choice pop linked S})" using S ch by auto
    have "detect_exact_duplicates_loop pop (S # itr) linked (K, D) =
          detect_exact_duplicates_loop pop itr linked (K \<union> set S, D)"
      using single by (simp add: py_len_0)
    then have "detect_exact_duplicates_loop pop (S # itr) linked (K, D) =
          detect_exact_duplicates_loop pop itr linked
            (insert (rdg_choice pop linked S) K, D \<union> (set S - {rdg_choice pop linked S}))"
      unfolding eqK using eqD by simp
    then show ?thesis unfolding rhs [OF nm single(1)] .
  next
    case none
    then have ch: "rdg_choice pop linked S = pop S" by (simp add: rdg_choice_def)
    from none(3) lp have nm: "\<not> 1 < card (linked_tpls linked S)" by (simp add: py_len_def)
    from none(1) have ne: "S \<noteq> []" by (auto simp: py_len_0)
    have "detect_exact_duplicates_loop pop (S # itr) linked (K, D) =
          detect_exact_duplicates_loop pop itr linked (insert (pop S) K, D \<union> (set S - {pop S}))"
      using none by (simp add: Let_def py_len_def)
    then show ?thesis unfolding rhs [OF nm ne] ch .
  next
    case one
    from one(4) have P: "set ?pref = {hd ?pref}" by (rule py_len_1)
    from one(3) obtain t ts where c: "?pref = t # ts" by (cases ?pref) auto
    with one(2) have ch: "rdg_choice pop linked S = hd ?pref" by (simp add: rdg_choice_def)
    from one(4) lp have nm: "\<not> 1 < card (linked_tpls linked S)" by simp
    from one(1) have ne: "S \<noteq> []" by (auto simp: py_len_0)
    from one(3) have p0: "py_len ?pref \<noteq> 0" by (simp add: py_len_0)
    have "detect_exact_duplicates_loop pop (S # itr) linked (K, D) =
          detect_exact_duplicates_loop pop itr linked
            (K \<union> set ?pref, D \<union> (set S - set ?pref))"
      using one(1,2,4) p0 by (simp only: detect_exact_duplicates_loop.simps Let_def if_False if_True
          refl simp_thms)
    also have "K \<union> set ?pref = insert (rdg_choice pop linked S) K" unfolding P ch by simp
    also have "set S - set ?pref = set S - {rdg_choice pop linked S}" unfolding P ch by simp
    finally show ?thesis unfolding rhs [OF nm ne] .
  qed
qed

lemma detect_loop_result:
  "detect_exact_duplicates_loop pop itr linked (K, D) = Inr (K', D') \<Longrightarrow>
   K' = K \<union> rdg_choice pop linked ` {S \<in> set itr. S \<noteq> []} \<and>
   D' = D \<union> (\<Union>S \<in> set itr. set S - {rdg_choice pop linked S})"
proof (induction itr arbitrary: K D)
  case Nil
  then show ?case by simp
next
  case (Cons S itr)
  show ?case
  proof (cases "S = []")
    case True
    with Cons.prems have "detect_exact_duplicates_loop pop itr linked (K, D) = Inr (K', D')"
      by (simp add: detect_loop_step del: detect_exact_duplicates_loop.simps split: if_splits)
    from Cons.IH [OF this] True show ?thesis by auto
  next
    case False
    let ?c = "rdg_choice pop linked S"
    from False Cons.prems have "detect_exact_duplicates_loop pop itr linked
        (insert ?c K, D \<union> (set S - {?c})) = Inr (K', D')"
      by (simp add: detect_loop_step del: detect_exact_duplicates_loop.simps split: if_splits)
    from Cons.IH [OF this]
    have K': "K' = insert ?c K \<union> rdg_choice pop linked ` {S \<in> set itr. S \<noteq> []}"
      and D': "D' = D \<union> (set S - {?c}) \<union> (\<Union>S \<in> set itr. set S - {rdg_choice pop linked S})"
      by simp_all
    have "{T \<in> set (S # itr). T \<noteq> []} = insert S {T \<in> set itr. T \<noteq> []}"
      using False by auto
    then have "K' = K \<union> rdg_choice pop linked ` {T \<in> set (S # itr). T \<noteq> []}"
      unfolding K' by simp
    moreover have "D' = D \<union> (\<Union>T \<in> set (S # itr). set T - {rdg_choice pop linked T})"
      unfolding D' by auto
    ultimately show ?thesis by simp
  qed
qed

lemma detect_loop_error:
  "detect_exact_duplicates_loop pop itr linked (K, D) = Inl e \<Longrightarrow>
   e = AssertionError DuplicateDeduplicated \<and> (\<exists>S \<in> set itr. 1 < card (linked_tpls linked S))"
proof (induction itr arbitrary: K D)
  case Nil
  then show ?case by simp
next
  case (Cons S itr)
  show ?case
  proof (cases "1 < card (linked_tpls linked S)")
    case True
    with Cons.prems show ?thesis by (simp add: detect_loop_step del: detect_exact_duplicates_loop.simps)
  next
    case False
    with Cons.prems obtain K1 D1
      where "detect_exact_duplicates_loop pop itr linked (K1, D1) = Inl e"
      by (auto simp: detect_loop_step simp del: detect_exact_duplicates_loop.simps split: if_splits)
    from Cons.IH [OF this] show ?thesis by auto
  qed
qed

lemma detect_loop_asserts:
  "\<exists>S \<in> set itr. 1 < card (linked_tpls linked S) \<Longrightarrow>
   detect_exact_duplicates_loop pop itr linked (K, D) = Inl (AssertionError DuplicateDeduplicated)"
proof (induction itr arbitrary: K D)
  case Nil
  then show ?case by simp
next
  case (Cons S itr)
  show ?case
  proof (cases "1 < card (linked_tpls linked S)")
    case True
    then show ?thesis by (simp add: detect_loop_step del: detect_exact_duplicates_loop.simps)
  next
    case False
    with Cons.prems have "\<exists>S \<in> set itr. 1 < card (linked_tpls linked S)" by simp
    from Cons.IH [OF this] False show ?thesis by (simp add: detect_loop_step del: detect_exact_duplicates_loop.simps)
  qed
qed

lemma valid_popD: "valid_pop pop \<Longrightarrow> xs \<noteq> [] \<Longrightarrow> pop xs \<in> set xs"
  by (simp add: valid_pop_def)

lemma choose_tpl_spec:
  assumes vp: "valid_pop pop"
  shows "choose_tpl pop nd grp =
     (if grp = [] then Inl (AssertionError EmptyGroup)
      else if 1 < card (linked_rows nd grp) then Inl (AssertionError DuplicateDeduplicated)
      else Inr (db_choice pop nd grp, row_id ` (set grp - {db_choice pop nd grp})))"
proof -
  let ?S = "remdups grp"
  let ?pref = "filter (\<lambda>tpl. row_id tpl \<in> nd) ?S"
  have lp: "py_len ?pref = card (linked_rows nd grp)"
    by (simp add: py_len_filter linked_rows_def)
  have le: "card (linked_rows nd grp) \<le> card (set grp)"
    by (rule card_mono) (auto simp: linked_rows_def)
  have sp: "set ?pref = linked_rows nd grp" by (auto simp: linked_rows_def)
  show ?thesis
  proof (cases "grp = []")
    case True
    then show ?thesis by (simp add: choose_tpl_def)
  next
    case ne: False
    show ?thesis
    proof (cases "length grp = 1")
      case True
      then obtain r where r: "grp = [r]" by (cases grp) auto
      then have "card (linked_rows nd grp) \<le> 1" using le by simp
      with r show ?thesis by (simp add: choose_tpl_def db_choice_def)
    next
      case n1: False
      show ?thesis
      proof (cases ?pref)
        case Nil
        then have ch: "db_choice pop nd grp = pop ?S" using n1 by (simp add: db_choice_def)
        from Nil sp have none: "linked_rows nd grp = {}" by simp
        have nolink: "row_id t \<notin> nd" if "t \<in> set grp" for t
        proof -
          from none have "t \<notin> linked_rows nd grp" by simp
          with that show ?thesis by (simp add: linked_rows_def)
        qed
        have "{tpl \<in> set ?S - {pop ?S}. row_id tpl \<notin> nd} = set grp - {pop ?S}"
          using nolink by (intro set_eqI) (simp, blast)
        with Nil ne n1 none ch show ?thesis by (simp add: choose_tpl_def Let_def py_len_def)
      next
        case (Cons t ts)
        then have ch: "db_choice pop nd grp = pop ?pref" using n1 by (simp add: db_choice_def)
        from Cons have p0: "py_len ?pref \<noteq> 0" by (simp add: py_len_0)
        show ?thesis
        proof (cases "py_len ?pref = 1")
          case True
          then have P: "set ?pref = {hd ?pref}" by (rule py_len_1)
          from Cons have "?pref \<noteq> []" by simp
          from valid_popD [OF vp this] have "pop ?pref \<in> set ?pref" .
          with P have pp: "pop ?pref = hd ?pref" by simp
          from P sp pp have L: "linked_rows nd grp = {pop ?pref}" by simp
          then have c1: "\<not> 1 < card (linked_rows nd grp)" by simp
          have "{tpl \<in> set ?S. row_id tpl \<notin> nd} = set grp - {pop ?pref}"
          proof (intro set_eqI iffI)
            fix tpl
            assume "tpl \<in> {tpl \<in> set ?S. row_id tpl \<notin> nd}"
            then have tpl: "tpl \<in> set grp" "row_id tpl \<notin> nd" by simp_all
            then have "tpl \<notin> linked_rows nd grp" by (simp add: linked_rows_def)
            with L have "tpl \<noteq> pop ?pref" by simp
            with tpl show "tpl \<in> set grp - {pop ?pref}" by simp
          next
            fix tpl
            assume "tpl \<in> set grp - {pop ?pref}"
            then have tpl: "tpl \<in> set grp" "tpl \<noteq> pop ?pref" by simp_all
            with L have "tpl \<notin> linked_rows nd grp" by simp
            with tpl have "row_id tpl \<notin> nd" by (simp add: linked_rows_def)
            with tpl show "tpl \<in> {tpl \<in> set ?S. row_id tpl \<notin> nd}" by simp
          qed
          with True p0 ne n1 c1 ch show ?thesis by (simp add: choose_tpl_def Let_def)
        next
          case False
          with p0 lp have "1 < card (linked_rows nd grp)" by simp
          with False p0 ne n1 show ?thesis by (simp add: choose_tpl_def Let_def)
        qed
      qed
    qed
  qed
qed

lemma db_choice_mem:
  assumes vp: "valid_pop pop" and ne: "grp \<noteq> []"
  shows "db_choice pop nd grp \<in> set grp"
proof (cases "length grp = 1")
  case True
  with ne show ?thesis by (simp add: db_choice_def)
next
  case False
  show ?thesis
  proof (cases "filter (\<lambda>tpl. row_id tpl \<in> nd) (remdups grp)")
    case Nil
    from ne have "remdups grp \<noteq> []" by simp
    from valid_popD [OF vp this] have "pop (remdups grp) \<in> set (remdups grp)" .
    with Nil False show ?thesis by (simp add: db_choice_def)
  next
    case (Cons t ts)
    have "pop (t # ts) \<in> set (t # ts)" by (rule valid_popD [OF vp]) simp
    with Cons have "pop (t # ts) \<in> set (filter (\<lambda>tpl. row_id tpl \<in> nd) (remdups grp))" by simp
    then have "pop (t # ts) \<in> set grp" by simp
    with Cons False show ?thesis by (simp add: db_choice_def)
  qed
qed

lemma db_choice_linked:
  assumes vp: "valid_pop pop" and L: "linked_rows nd grp = {u}"
  shows "db_choice pop nd grp = u"
proof -
  from L have u: "u \<in> set grp" by (auto simp: linked_rows_def)
  have sp: "set (filter (\<lambda>tpl. row_id tpl \<in> nd) (remdups grp)) = {u}"
    using L by (auto simp: linked_rows_def)
  show ?thesis
  proof (cases "length grp = 1")
    case True
    then obtain r where "grp = [r]" by (cases grp) auto
    with u True show ?thesis by (simp add: db_choice_def)
  next
    case False
    from sp obtain t ts where c: "filter (\<lambda>tpl. row_id tpl \<in> nd) (remdups grp) = t # ts"
      by (cases "filter (\<lambda>tpl. row_id tpl \<in> nd) (remdups grp)") auto
    have "pop (t # ts) \<in> set (t # ts)" by (rule valid_popD [OF vp]) simp
    with c sp have "pop (t # ts) = u" by auto
    with c False show ?thesis by (simp add: db_choice_def)
  qed
qed

lemma detect_total:
  "\<forall>S \<in> set itr. card (linked_tpls linked S) \<le> 1 \<Longrightarrow>
   \<exists>kept dups. detect_exact_duplicates pop itr linked = Inr (kept, dups)"
proof (cases "detect_exact_duplicates pop itr linked")
  case (Inl e)
  then have "\<exists>S \<in> set itr. 1 < card (linked_tpls linked S)"
    unfolding detect_exact_duplicates_def by (blast dest: detect_loop_error)
  moreover assume "\<forall>S \<in> set itr. card (linked_tpls linked S) \<le> 1"
  ultimately show ?thesis by force
next
  case (Inr r)
  then show ?thesis by (cases r) simp
qed

lemma detect_spec:
  assumes vp: "valid_pop pop" and ok: "\<forall>S \<in> set itr. card (linked_tpls linked S) \<le> 1"
  shows "\<exists>kept dups. detect_exact_duplicates pop itr linked = Inr (kept, dups) \<and>
           kept = rdg_choice pop linked ` {S \<in> set itr. S \<noteq> []} \<and>
           dups = (\<Union>S \<in> set itr. set S - {rdg_choice pop linked S}) \<and>
           (\<forall>S \<in> set itr. S \<noteq> [] \<longrightarrow> rdg_choice pop linked S \<in> set S \<and>
              (\<forall>u. linked_tpls linked S = {u} \<longrightarrow> rdg_choice pop linked S = u))"
proof -
  from detect_total [OF ok] obtain kept dups
    where r: "detect_exact_duplicates pop itr linked = Inr (kept, dups)" by blast
  from detect_loop_result [OF r [unfolded detect_exact_duplicates_def]]
  have "kept = rdg_choice pop linked ` {S \<in> set itr. S \<noteq> []}"
    "dups = (\<Union>S \<in> set itr. set S - {rdg_choice pop linked S})"
    by simp_all
  moreover have "\<forall>S \<in> set itr. S \<noteq> [] \<longrightarrow> rdg_choice pop linked S \<in> set S \<and>
              (\<forall>u. linked_tpls linked S = {u} \<longrightarrow> rdg_choice pop linked S = u)"
    using rdg_choice_mem [OF vp] rdg_choice_linked by blast
  ultimately show ?thesis using r by blast
qed

lemma choose_unique_spec:
  assumes vp: "valid_pop pop"
  shows "choose_unique pop fj nd full grp =
     (if grp = [] then Inl (AssertionError EmptyGroup)
      else if 1 < card (linked_rows nd grp) then Inl (AssertionError DuplicateDeduplicated)
      else if full then
             (case row_json (db_choice pop nd grp) of
                None \<Rightarrow> Inl IndexError
              | Some j \<Rightarrow> Inr (Stmt (fj j), row_id ` (set grp - {db_choice pop nd grp})))
           else Inr (Sid (row_id (db_choice pop nd grp)), row_id ` (set grp - {db_choice pop nd grp})))"
  by (simp add: choose_unique_def choose_tpl_spec [OF vp])

lemma linked_tpls_filter: "linked_tpls linked S = set (filter (\<lambda>tpl. fst tpl \<in> linked) S)"
  by (auto simp: linked_tpls_def)

lemma linked_rows_filter: "linked_rows nd grp = set (filter (\<lambda>tpl. row_id tpl \<in> nd) grp)"
  by (auto simp: linked_rows_def)

lemma valid_pop_hd: "valid_pop hd"
  by (simp add: valid_pop_def)

text \<open>
  C3. In both paths, a group with more than one linked member stops the run with the assertion
  \<^verbatim>\<open>Duplicate deduplicated statements found\<close>. Otherwise one member of each group that is not
  empty is kept and all its other members are reported as duplicates; the member kept is the
  linked one when there is one, and some member of the group when there is none.
\<close>

theorem exact_duplicate_groups:
  "valid_pop pop \<and> valid_pop pop_row \<longrightarrow>
     ((\<exists>S \<in> set itr. 1 < card (linked_tpls linked S)) \<longrightarrow>
        detect_exact_duplicates pop itr linked = Inl (AssertionError DuplicateDeduplicated)) \<and>
     ((\<forall>S \<in> set itr. card (linked_tpls linked S) \<le> 1) \<longrightarrow>
        (\<exists>kept dups. detect_exact_duplicates pop itr linked = Inr (kept, dups) \<and>
           kept = rdg_choice pop linked ` {S \<in> set itr. S \<noteq> []} \<and>
           dups = (\<Union>S \<in> set itr. set S - {rdg_choice pop linked S}) \<and>
           (\<forall>S \<in> set itr. S \<noteq> [] \<longrightarrow> rdg_choice pop linked S \<in> set S \<and>
              (\<forall>u. linked_tpls linked S = {u} \<longrightarrow> rdg_choice pop linked S = u)))) \<and>
     (1 < card (linked_rows linked grp) \<longrightarrow>
        choose_unique pop_row fj linked full grp = Inl (AssertionError DuplicateDeduplicated)) \<and>
     (grp \<noteq> [] \<and> card (linked_rows linked grp) \<le> 1 \<longrightarrow>
        db_choice pop_row linked grp \<in> set grp \<and>
        (\<forall>u. linked_rows linked grp = {u} \<longrightarrow> db_choice pop_row linked grp = u) \<and>
        choose_unique pop_row fj linked full grp =
          (if full then
             (case row_json (db_choice pop_row linked grp) of
                None \<Rightarrow> Inl IndexError
              | Some j \<Rightarrow> Inr (Stmt (fj j), row_id ` (set grp - {db_choice pop_row linked grp})))
           else Inr (Sid (row_id (db_choice pop_row linked grp)),
                     row_id ` (set grp - {db_choice pop_row linked grp}))))"
proof (intro impI, elim conjE, intro conjI impI)
  assume vp: "valid_pop pop" and vr: "valid_pop pop_row"
  {
    assume "\<exists>S \<in> set itr. 1 < card (linked_tpls linked S)"
    then show "detect_exact_duplicates pop itr linked = Inl (AssertionError DuplicateDeduplicated)"
      unfolding detect_exact_duplicates_def by (rule detect_loop_asserts)
  next
    assume "\<forall>S \<in> set itr. card (linked_tpls linked S) \<le> 1"
    from detect_spec [OF vp this]
    show "\<exists>kept dups. detect_exact_duplicates pop itr linked = Inr (kept, dups) \<and>
           kept = rdg_choice pop linked ` {S \<in> set itr. S \<noteq> []} \<and>
           dups = (\<Union>S \<in> set itr. set S - {rdg_choice pop linked S}) \<and>
           (\<forall>S \<in> set itr. S \<noteq> [] \<longrightarrow> rdg_choice pop linked S \<in> set S \<and>
              (\<forall>u. linked_tpls linked S = {u} \<longrightarrow> rdg_choice pop linked S = u))" .
  next
    assume many: "1 < card (linked_rows linked grp)"
    then have "grp \<noteq> []" by (auto simp: linked_rows_def)
    with many show "choose_unique pop_row fj linked full grp =
        Inl (AssertionError DuplicateDeduplicated)"
      by (simp add: choose_unique_spec [OF vr])
  next
    assume g: "grp \<noteq> [] \<and> card (linked_rows linked grp) \<le> 1"
    then show "db_choice pop_row linked grp \<in> set grp" using db_choice_mem [OF vr] by blast
    show "\<forall>u. linked_rows linked grp = {u} \<longrightarrow> db_choice pop_row linked grp = u"
      using db_choice_linked [OF vr] by blast
    from g show "choose_unique pop_row fj linked full grp =
          (if full then
             (case row_json (db_choice pop_row linked grp) of
                None \<Rightarrow> Inl IndexError
              | Some j \<Rightarrow> Inr (Stmt (fj j), row_id ` (set grp - {db_choice pop_row linked grp})))
           else Inr (Sid (row_id (db_choice pop_row linked grp)),
                     row_id ` (set grp - {db_choice pop_row linked grp})))"
      by (simp add: choose_unique_spec [OF vr])
  }
qed

theorem exact_duplicate_groups_witness:
  "detect_exact_duplicates hd sample_groups {2} =
     Inr ({(2, None), (3, None), (5, None)}, {(1, None), (4, None)}) \<and>
   detect_exact_duplicates hd sample_groups {1, 2} = Inl (AssertionError DuplicateDeduplicated) \<and>
   choose_unique hd (\<lambda>j. ()) {2} False sample_rows = Inr (Sid 2, {1}) \<and>
   choose_unique hd (\<lambda>j. ()) {1, 2} False sample_rows = Inl (AssertionError DuplicateDeduplicated)"
proof -
  have pops: "valid_pop (hd :: unit stmt_tpl list \<Rightarrow> _) \<and> valid_pop (hd :: unit db_row list \<Rightarrow> _)"
    by (simp add: valid_pop_hd)
  note spec1 = exact_duplicate_groups
    [of hd hd sample_groups "{2}" sample_rows "\<lambda>j. ()" False, THEN mp, OF pops]
  note spec2 = exact_duplicate_groups
    [of hd hd sample_groups "{1, 2}" sample_rows "\<lambda>j. ()" False, THEN mp, OF pops]
  have ok1: "\<forall>S \<in> set sample_groups. card (linked_tpls {2} S) \<le> 1"
    by (simp add: sample_groups_def linked_tpls_filter card_set del: set_filter)
  have bad2: "\<exists>S \<in> set sample_groups. 1 < card (linked_tpls {1, 2} S)"
    by (simp add: sample_groups_def linked_tpls_filter card_set del: set_filter)
  have rows1: "sample_rows \<noteq> [] \<and> card (linked_rows {2} sample_rows) \<le> 1"
    by (simp add: sample_rows_def linked_rows_filter row_id_def card_set del: set_filter)
  have rows2: "1 < card (linked_rows {1, 2} sample_rows)"
    by (simp add: sample_rows_def linked_rows_filter row_id_def card_set del: set_filter)
  from spec1 [THEN conjunct2, THEN conjunct1, THEN mp, OF ok1] obtain kept dups
    where res: "detect_exact_duplicates hd sample_groups {2} = Inr (kept, dups)"
      and kept: "kept = rdg_choice hd {2} ` {S \<in> set sample_groups. S \<noteq> []}"
      and dups: "dups = (\<Union>S \<in> set sample_groups. set S - {rdg_choice hd {2} S})"
    by blast
  have gs: "{S \<in> set sample_groups. S \<noteq> []} =
      {[(1, None), (2, None)], [(3, None), (4, None)], [(5, None)]}"
    by (auto simp: sample_groups_def)
  have c1: "rdg_choice hd {2} [(1, None), (2, None) :: unit stmt_tpl] = (2, None)"
    and c2: "rdg_choice hd {2} [(3, None), (4, None) :: unit stmt_tpl] = (3, None)"
    and c3: "rdg_choice hd {2} [(5, None) :: unit stmt_tpl] = (5, None)"
    by (simp_all add: rdg_choice_def py_len_def)
  have "kept = {(2, None), (3, None), (5, None)}"
    unfolding kept gs by (simp add: c1 c2 c3)
  moreover have "dups = {(1, None), (4, None)}"
    unfolding dups by (simp add: sample_groups_def c1 c2 c3 insert_Diff_if insert_commute)
  ultimately have 1: "detect_exact_duplicates hd sample_groups {2} =
     Inr ({(2, None), (3, None), (5, None)}, {(1, None), (4, None)})"
    using res by simp
  from spec2 [THEN conjunct1, THEN mp, OF bad2]
  have 2: "detect_exact_duplicates hd sample_groups {1, 2} =
     Inl (AssertionError DuplicateDeduplicated)" .
  have ch: "db_choice hd {2} sample_rows = (10, 2, None)"
    by (simp add: db_choice_def sample_rows_def row_id_def py_len_def)
  from spec1 [THEN conjunct2, THEN conjunct2, THEN conjunct2, THEN mp, OF rows1]
  have "choose_unique hd (\<lambda>j. ()) {2} False sample_rows =
      Inr (Sid (row_id (db_choice hd {2} sample_rows)),
           row_id ` (set sample_rows - {db_choice hd {2} sample_rows}))"
    by simp
  then have 3: "choose_unique hd (\<lambda>j. ()) {2} False sample_rows = Inr (Sid 2, {1})"
    unfolding ch by (simp add: sample_rows_def row_id_def insert_Diff_if)
  from spec2 [THEN conjunct2, THEN conjunct2, THEN conjunct1, THEN mp, OF rows2]
  have 4: "choose_unique hd (\<lambda>j. ()) {1, 2} False sample_rows =
      Inl (AssertionError DuplicateDeduplicated)" .
  from 1 2 3 4 show ?thesis by simp
qed

section \<open>Properties of get_filtered_db_stmts\<close>

lemma db_seq_loop_pool:
  "db_seq_loop f gs (K, D) =
     (case pool_map f gs of
        Inl e \<Rightarrow> Inl e
      | Inr res \<Rightarrow> Inr (K \<union> set (map fst res), D \<union> \<Union> (set (map snd res))))"
proof (induction gs arbitrary: K D)
  case Nil
  then show ?case by simp
next
  case (Cons g gs)
  show ?case
  proof (cases "f g")
    case (Inl e)
    then show ?thesis by simp
  next
    case (Inr r)
    obtain stmt some where r: "r = (stmt, some)" by (cases r)
    show ?thesis
    proof (cases "pool_map f gs")
      case (Inl e)
      with Inr r Cons.IH show ?thesis by simp
    next
      case res: (Inr res)
      with Inr r Cons.IH show ?thesis by (simp add: Un_assoc)
    qed
  qed
qed

lemma pool_map_length: "pool_map f gs = Inr res \<Longrightarrow> length res = length gs"
  by (induction gs arbitrary: res) (auto split: sum.splits)

lemma groupby_Nil_iff: "groupby f xs = [] \<longleftrightarrow> xs = []"
  by (cases xs) simp_all

text \<open>
  When the query has rows, the pool returns what the single process returns.
\<close>

lemma db_paths_agree_nonempty:
  assumes ne: "db_stmt_query db full clauses \<noteq> []" and n: "1 < n"
  shows "get_filtered_db_stmts pop fj db full clauses nd n =
         get_filtered_db_stmts pop fj db full clauses nd 1"
proof -
  let ?gs = "groupby fst (db_stmt_query db full clauses)"
  let ?f = "choose_unique pop fj nd full"
  from ne have gne: "?gs \<noteq> []" by (simp add: groupby_Nil_iff)
  show ?thesis
  proof (cases "pool_map ?f ?gs")
    case (Inl e)
    with n show ?thesis by (simp add: get_filtered_db_stmts_def db_seq_loop_pool)
  next
    case (Inr res)
    from pool_map_length [OF this] gne have "res \<noteq> []" by auto
    with Inr n show ?thesis by (simp add: get_filtered_db_stmts_def db_seq_loop_pool)
  qed
qed

text \<open>
  C5. When the query has no rows, the single-process path returns two empty sets and the path
  with a pool of four processes raises a \<^verbatim>\<open>ValueError\<close>.
\<close>

theorem db_paths_differ_on_empty_corpus:
  "get_filtered_db_stmts pop fj (db\<lparr>raw_statements := []\<rparr>) full clauses nd 1 = Inr ({}, {}) \<and>
   get_filtered_db_stmts pop fj (db\<lparr>raw_statements := []\<rparr>) full clauses nd 4 = Inl ValueError"
  by (simp add: get_filtered_db_stmts_def db_stmt_query_def)

section \<open>Properties of distill_stmts\<close>

lemma detect_dups_unlinked:
  assumes r: "detect_exact_duplicates pop itr linked = Inr (K, D)"
  shows "fst ` D \<inter> linked = {}"
proof -
  from detect_loop_result [OF r [unfolded detect_exact_duplicates_def]]
  have D: "D = (\<Union>S \<in> set itr. set S - {rdg_choice pop linked S})" by simp
  have ok: "\<not> 1 < card (linked_tpls linked S)" if "S \<in> set itr" for S
  proof
    assume "1 < card (linked_tpls linked S)"
    with that have "\<exists>S \<in> set itr. 1 < card (linked_tpls linked S)" by blast
    from detect_loop_asserts [OF this, of pop "{}" "{}"] r show False
      by (simp add: detect_exact_duplicates_def)
  qed
  have "fst t \<notin> linked" if S: "S \<in> set itr" and t: "t \<in> set S" "t \<noteq> rdg_choice pop linked S"
    for S t
  proof
    assume "fst t \<in> linked"
    with t have tl: "t \<in> linked_tpls linked S" by (simp add: linked_tpls_def)
    have fin: "finite (linked_tpls linked S)" by (simp add: linked_tpls_def)
    from ok [OF S] have "card (linked_tpls linked S) \<le> Suc 0" by simp
    with fin tl have "linked_tpls linked S = {t}"
      by (auto simp: card_le_Suc0_iff_eq)
    from rdg_choice_linked [OF this] t show False by simp
  qed
  with D show ?thesis by auto
qed

lemma rv_dict_loop_unlinked:
  "rv_dict_loop pop linked ign rv_list rvds (K, D, B) = Inr (K', D', B') \<Longrightarrow>
   D \<inter> linked = {} \<Longrightarrow> D' \<inter> linked = {}"
proof (induction rvds arbitrary: K D B)
  case Nil
  then show ?case by simp
next
  case (Cons rv_d rvds)
  from Cons.prems(1) obtain best where
    best: "py_max_key (index_of rv_list) (map fst rv_d) = Inr best"
    by (auto split: sum.splits)
  show ?case
  proof (cases ign)
    case True
    with Cons.prems(1) best obtain K1 B1 where
      "rv_dict_loop pop linked ign rv_list rvds (K1, D, B1) = Inr (K', D', B')"
      by (simp add: Let_def)
    from Cons.IH [OF this Cons.prems(2)] show ?thesis .
  next
    case False
    with Cons.prems(1) best obtain Ks Ds where
      det: "detect_exact_duplicates pop (stmt_set_itr rv_d best) linked = Inr (Ks, Ds)"
      by (auto simp: Let_def split: sum.splits)
    with False Cons.prems(1) best obtain K1 B1 where
      rec: "rv_dict_loop pop linked ign rv_list rvds (K1, D \<union> fst ` Ds, B1) = Inr (K', D', B')"
      by (simp add: Let_def)
    from detect_dups_unlinked [OF det] Cons.prems(2)
    have "(D \<union> fst ` Ds) \<inter> linked = {}" by auto
    from Cons.IH [OF rec this] show ?thesis .
  qed
qed

lemma reader_loop_unlinked:
  "reader_loop pop linked ign src_dict readers (K, D, B) = Inr (K', D', B') \<Longrightarrow>
   D \<inter> linked = {} \<Longrightarrow> D' \<inter> linked = {}"
proof (induction readers arbitrary: K D B)
  case Nil
  then show ?case by simp
next
  case (Cons r readers)
  obtain reader rv_list where r: "r = (reader, rv_list)" by (cases r)
  from Cons.prems(1) r obtain K1 D1 B1 where
    step: "rv_dict_loop pop linked ign rv_list (gets_reader reader src_dict) (K, D, B) =
        Inr (K1, D1, B1)"
    and rec: "reader_loop pop linked ign src_dict readers (K1, D1, B1) = Inr (K', D', B')"
    by (auto split: sum.splits)
  from rv_dict_loop_unlinked [OF step Cons.prems(2)] have "D1 \<inter> linked = {}" .
  from Cons.IH [OF rec this] show ?case .
qed

lemma text_ref_loop_unlinked:
  "text_ref_loop pop linked ign stmt_nd (K, D, B) = Inr (K', D', B') \<Longrightarrow>
   D \<inter> linked = {} \<Longrightarrow> D' \<inter> linked = {}"
proof (induction stmt_nd arbitrary: K D B)
  case Nil
  then show ?case by simp
next
  case (Cons e stmt_nd)
  obtain trid src_dict where e: "e = (trid, src_dict)" by (cases e)
  from Cons.prems(1) e obtain src_dict' Bs K1 D1 B1 where
    "discard_worse src_dict {} = Inr (src_dict', Bs)"
    and step: "reader_loop pop linked ign src_dict' reader_versions (K, D, Bs) = Inr (K1, D1, B1)"
    and rec: "text_ref_loop pop linked ign stmt_nd (K1, D1, B \<union> fst ` B1) = Inr (K', D', B')"
    by (auto split: sum.splits)
  from reader_loop_unlinked [OF step Cons.prems(2)] have "D1 \<inter> linked = {}" .
  from Cons.IH [OF rec this] show ?case .
qed

lemma get_filtered_rdg_stmts_unlinked:
  assumes "get_filtered_rdg_stmts pop stmt_nd full linked ign = Inr (stmts, dups, bett)"
  shows "linked \<inter> dups = {}"
proof -
  from assms obtain K where
    "text_ref_loop pop linked ign stmt_nd ({}, {}, {}) = Inr (K, dups, bett)"
    by (auto simp: get_filtered_rdg_stmts_def Let_def split: sum.splits if_splits)
  from text_ref_loop_unlinked [OF this] show ?thesis by auto
qed

lemma choose_tpl_unlinked: "choose_tpl pop nd grp = Inr (s, d) \<Longrightarrow> d \<inter> nd = {}"
  by (auto simp: choose_tpl_def Let_def split: if_splits)

lemma choose_unique_unlinked:
  assumes "choose_unique pop fj nd full grp = Inr (k, d)"
  shows "d \<inter> nd = {}"
proof -
  from assms obtain s where "choose_tpl pop nd grp = Inr (s, d)"
    by (auto simp: choose_unique_def split: sum.splits if_splits option.splits)
  then show ?thesis by (rule choose_tpl_unlinked)
qed

lemma pool_map_results:
  "pool_map f gs = Inr res \<Longrightarrow> r \<in> set res \<Longrightarrow> \<exists>g \<in> set gs. f g = Inr r"
  by (induction gs arbitrary: res) (auto split: sum.splits)

lemma get_filtered_db_stmts_unlinked:
  assumes "get_filtered_db_stmts pop fj db full clauses linked n = Inr (stmts, dups)"
  shows "linked \<inter> dups = {}"
proof -
  let ?gs = "groupby fst (db_stmt_query db full clauses)"
  let ?f = "choose_unique pop fj linked full"
  from assms obtain res where res: "pool_map ?f ?gs = Inr res"
    and dups: "dups = \<Union> (set (map snd res))"
    by (auto simp: get_filtered_db_stmts_def db_seq_loop_pool Let_def split: if_splits sum.splits)
  have "snd r \<inter> linked = {}" if "r \<in> set res" for r
  proof -
    from pool_map_results [OF res that] obtain g where "?f g = Inr r" by blast
    then have "?f g = Inr (fst r, snd r)" by simp
    from choose_unique_unlinked [OF this] show ?thesis .
  qed
  with dups show ?thesis by auto
qed

lemma distill_stages_Inr:
  assumes "distill_stages linked rdg_result db_result db hdup weed bs = Inr r"
  shows "\<exists>rdg_stmts rdg_dups bett db_stmts db_dups.
           rdg_result = Inr (rdg_stmts, rdg_dups, bett) \<and> linked \<inter> rdg_dups = {} \<and>
           db_result = Inr (db_stmts, db_dups) \<and> linked \<inter> (rdg_dups \<union> db_dups) = {}"
  using assms
  by (auto simp: distill_stages_def Let_def split: sum.splits if_splits)

lemma distill_stages_no_assert:
  assumes rdg: "\<And>s d b. rdg_result = Inr (s, d, b) \<Longrightarrow> linked \<inter> d = {}"
    and dbr: "\<And>s d. db_result = Inr (s, d) \<Longrightarrow> linked \<inter> d = {}"
    and r1: "rdg_result \<noteq> Inl (AssertionError LinkedDuplicate)"
    and r2: "db_result \<noteq> Inl (AssertionError LinkedDuplicate)"
  shows "distill_stages linked rdg_result db_result db hdup weed bs \<noteq>
         Inl (AssertionError LinkedDuplicate)"
proof (cases rdg_result)
  case (Inl e)
  with r1 show ?thesis by (simp add: distill_stages_def)
next
  case (Inr a)
  obtain s d b where a: "a = (s, d, b)" by (cases a)
  from rdg [OF Inr [unfolded a]] have d: "linked \<inter> d = {}" .
  show ?thesis
  proof (cases db_result)
    case (Inl e)
    with r2 Inr a d show ?thesis by (simp add: distill_stages_def)
  next
    case db: (Inr c)
    obtain s2 d2 where c: "c = (s2, d2)" by (cases c)
    from dbr [OF db [unfolded c]] d have "linked \<inter> (d \<union> d2) = {}" by auto
    with Inr a d db c show ?thesis by (simp add: distill_stages_def Let_def)
  qed
qed

lemma rv_dict_loop_error:
  "rv_dict_loop pop linked ign rv_list rvds st = Inl e \<Longrightarrow> e \<noteq> AssertionError LinkedDuplicate"
proof (induction rvds arbitrary: st)
  case Nil
  then show ?case by simp
next
  case (Cons rv_d rvds)
  obtain K D B where st: "st = (K, D, B)" by (cases st)
  show ?case
  proof (cases "py_max_key (index_of rv_list) (map fst rv_d)")
    case (Inl e')
    then have "e' = ValueError"
      by (cases "map fst rv_d") (auto simp: py_max_key_def split: if_splits)
    with Cons.prems st Inl show ?thesis by simp
  next
    case (Inr best)
    show ?thesis
    proof (cases ign)
      case True
      with Cons.prems st Inr obtain st' where
        "rv_dict_loop pop linked ign rv_list rvds st' = Inl e"
        by (simp add: Let_def)
      from Cons.IH [OF this] show ?thesis .
    next
      case False
      show ?thesis
      proof (cases "detect_exact_duplicates pop (stmt_set_itr rv_d best) linked")
        case (Inl e')
        from detect_loop_error [OF this [unfolded detect_exact_duplicates_def]]
        have "e' = AssertionError DuplicateDeduplicated" by simp
        with Cons.prems st Inr False Inl show ?thesis by (auto simp: Let_def)
      next
        case det: (Inr r)
        obtain Ks Ds where r: "r = (Ks, Ds)" by (cases r)
        with Cons.prems st Inr False det obtain st' where
          "rv_dict_loop pop linked ign rv_list rvds st' = Inl e"
          by (simp add: Let_def)
        from Cons.IH [OF this] show ?thesis .
      qed
    qed
  qed
qed

lemma reader_loop_error:
  "reader_loop pop linked ign src_dict readers st = Inl e \<Longrightarrow> e \<noteq> AssertionError LinkedDuplicate"
proof (induction readers arbitrary: st)
  case Nil
  then show ?case by simp
next
  case (Cons r readers)
  obtain reader rv_list where r: "r = (reader, rv_list)" by (cases r)
  show ?case
  proof (cases "rv_dict_loop pop linked ign rv_list (gets_reader reader src_dict) st")
    case (Inl e')
    with Cons.prems r have "e' = e" by simp
    with rv_dict_loop_error [OF Inl] show ?thesis by simp
  next
    case (Inr st')
    with Cons.prems r have "reader_loop pop linked ign src_dict readers st' = Inl e" by simp
    from Cons.IH [OF this] show ?thesis .
  qed
qed

lemma discard_worse_error:
  "discard_worse src_dict B = Inl e \<Longrightarrow> e = ValueError"
proof (induction src_dict B rule: discard_worse.induct)
  case (1 src_dict B)
  from "1.prems" have len: "1 < length src_dict"
    by (subst (asm) discard_worse.simps) (simp split: if_splits)
  show ?case
  proof (cases "py_min_key better_func (map fst src_dict)")
    case (Inl e')
    then have "e' = ValueError"
      by (cases "map fst src_dict") (auto simp: py_min_key_def split: if_splits)
    moreover from "1.prems" len Inl have "e' = e"
      by (subst (asm) discard_worse.simps) simp
    ultimately show ?thesis by simp
  next
    case (Inr w)
    from "1.prems" len Inr
    have "discard_worse (filter (\<lambda>kv. fst kv \<noteq> w) src_dict)
            (B \<union> (case map_of src_dict w of None \<Rightarrow> {} | Some tc_d \<Rightarrow> leaves_tc tc_d)) = Inl e"
      by (subst (asm) discard_worse.simps) simp
    from "1.IH" [OF len Inr this] show ?thesis .
  qed
qed

lemma text_ref_loop_error:
  "text_ref_loop pop linked ign stmt_nd acc = Inl e \<Longrightarrow> e \<noteq> AssertionError LinkedDuplicate"
proof (induction stmt_nd arbitrary: acc)
  case Nil
  then show ?case by simp
next
  case (Cons en stmt_nd)
  obtain trid src_dict where en: "en = (trid, src_dict)" by (cases en)
  obtain K D B where acc: "acc = (K, D, B)" by (cases acc)
  show ?case
  proof (cases "discard_worse src_dict {}")
    case (Inl e')
    with Cons.prems en acc have "e' = e" by simp
    with discard_worse_error [OF Inl] show ?thesis by simp
  next
    case (Inr r)
    obtain d' Bs where r: "r = (d', Bs)" by (cases r)
    show ?thesis
    proof (cases "reader_loop pop linked ign d' reader_versions (K, D, Bs)")
      case (Inl e')
      with Cons.prems en acc Inr r have "e' = e" by simp
      with reader_loop_error [OF Inl] show ?thesis by simp
    next
      case rl: (Inr st')
      obtain K1 D1 B1 where st': "st' = (K1, D1, B1)" by (cases st')
      with Cons.prems en acc Inr r rl obtain acc' where
        "text_ref_loop pop linked ign stmt_nd acc' = Inl e" by simp
      from Cons.IH [OF this] show ?thesis .
    qed
  qed
qed

lemma get_filtered_rdg_stmts_error:
  "get_filtered_rdg_stmts pop stmt_nd full linked ign \<noteq> Inl (AssertionError LinkedDuplicate)"
proof
  assume a: "get_filtered_rdg_stmts pop stmt_nd full linked ign = Inl (AssertionError LinkedDuplicate)"
  show False
  proof (cases "text_ref_loop pop linked ign stmt_nd ({}, {}, {})")
    case (Inl e)
    with a have "e = AssertionError LinkedDuplicate" by (simp add: get_filtered_rdg_stmts_def)
    with text_ref_loop_error [OF Inl] show False by simp
  next
    case (Inr r)
    with a show False
      by (auto simp: get_filtered_rdg_stmts_def Let_def split: if_splits prod.splits)
  qed
qed

lemma choose_unique_error:
  "choose_unique pop fj nd full grp = Inl e \<Longrightarrow> e \<noteq> AssertionError LinkedDuplicate"
  by (auto simp: choose_unique_def choose_tpl_def Let_def
      split: sum.splits if_splits option.splits)

lemma pool_map_error: "pool_map f gs = Inl e \<Longrightarrow> \<exists>g \<in> set gs. f g = Inl e"
  by (induction gs) (auto split: sum.splits)

lemma get_filtered_db_stmts_error:
  "get_filtered_db_stmts pop fj db full clauses nd n \<noteq> Inl (AssertionError LinkedDuplicate)"
proof
  let ?gs = "groupby fst (db_stmt_query db full clauses)"
  let ?f = "choose_unique pop fj nd full"
  assume "get_filtered_db_stmts pop fj db full clauses nd n = Inl (AssertionError LinkedDuplicate)"
  then have "pool_map ?f ?gs = Inl (AssertionError LinkedDuplicate)"
    by (auto simp: get_filtered_db_stmts_def db_seq_loop_pool Let_def split: if_splits sum.splits)
  from pool_map_error [OF this] obtain g where "?f g = Inl (AssertionError LinkedDuplicate)" ..
  from choose_unique_error [OF this] show False by simp
qed

lemma reading_stmt_dict_loop_error:
  "reading_stmt_dict_loop lib full rows stmt_nd = Inl e \<Longrightarrow> e = Exception"
proof (induction rows arbitrary: stmt_nd)
  case Nil
  then show ?case by simp
next
  case (Cons row rows)
  obtain tr tcid src rid rv sid sjson where row: "row = (tr, tcid, src, rid, rv, sid, sjson)"
    by (cases row)
  show ?case
  proof (cases "reader_of_version rv")
    case None
    with Cons.prems row show ?thesis by simp
  next
    case (Some reader)
    with Cons.prems row obtain nd' where "reading_stmt_dict_loop lib full rows nd' = Inl e"
      by (simp add: Let_def)
    from Cons.IH [OF this] show ?thesis .
  qed
qed

lemma distill_stmts_no_assert:
  "distill_stmts pop pop_row lib db full clauses n hdup weed bs \<noteq>
   Inl (AssertionError LinkedDuplicate)"
proof (cases "get_reading_stmt_dict lib db clauses full")
  case (Inl e)
  from reading_stmt_dict_loop_error [OF this [unfolded get_reading_stmt_dict_def]]
  have "e = Exception" .
  with Inl show ?thesis by (simp add: distill_stmts_def)
next
  case (Inr stmt_nd)
  let ?linked = "linked_sids_of db hdup"
  have "distill_stages ?linked
          (get_filtered_rdg_stmts pop stmt_nd full ?linked False)
          (get_filtered_db_stmts pop_row (from_json lib) db full clauses ?linked n)
          db hdup weed bs \<noteq> Inl (AssertionError LinkedDuplicate)"
    by (rule distill_stages_no_assert)
       (simp_all add: get_filtered_rdg_stmts_unlinked get_filtered_db_stmts_unlinked
          get_filtered_rdg_stmts_error get_filtered_db_stmts_error)
  with Inr show ?thesis by (simp add: distill_stmts_def Let_def)
qed

lemma sample_reading_dict:
  "get_reading_stmt_dict sample_lib sample_db (\<lambda>r. True) False = Inr sample_nd"
  by (simp add: get_reading_stmt_dict_def rdg_query_def sample_db_def sample_lib_def sample_nd_def
      reader_of_version_def reader_versions_def Let_def)

lemma sample_rdg:
  "get_filtered_rdg_stmts hd sample_nd False {2, 5} False = Inr ({Sid 5}, {4}, {})"
  by (simp add: get_filtered_rdg_stmts_def sample_nd_def discard_worse.simps py_max_key_def
      reader_versions_def gets_reader_def leaves_r_def leaves_s_def other_versions_leaves_def
      stmt_set_itr_def detect_exact_duplicates_def py_len_def Let_def insert_Diff_if)

lemma sample_query:
  "db_stmt_query sample_db False (\<lambda>r. True) = [(10, 1, None), (10, 2, None), (11, 3, None)]"
  by (simp add: db_stmt_query_def sample_db_def)

lemma sample_groupby:
  "groupby fst [(10 :: int, 1 :: int, None :: int option), (10, 2, None), (11, 3, None)] =
     [[(10, 1, None), (10, 2, None)], [(11, 3, None)]]"
  by simp

lemma sample_choose_linked:
  "choose_unique hd (\<lambda>j. j) {2, 5} False [(10, 1, None :: int option), (10, 2, None)] =
     Inr (Sid 2 :: int kept_stmt, {1})"
proof -
  have ch: "db_choice hd {2, 5} [(10, 1, None :: int option), (10, 2, None)] = (10, 2, None)"
    by (simp add: db_choice_def row_id_def py_len_def)
  have "card (linked_rows {2, 5} [(10, 1, None :: int option), (10, 2, None)]) = 1"
    by (simp add: linked_rows_filter row_id_def card_set del: set_filter)
  then show ?thesis
    by (simp add: choose_unique_spec [OF valid_pop_hd] ch row_id_def insert_Diff_if)
qed

lemma sample_choose_single:
  "choose_unique hd (\<lambda>j. j) {2, 5} False [(11, 3, None :: int option)] =
     Inr (Sid 3 :: int kept_stmt, {})"
  by (simp add: choose_unique_def choose_tpl_def row_id_def)

lemma sample_db_stmts:
  "get_filtered_db_stmts hd (\<lambda>j. j) sample_db False (\<lambda>r. True) {2, 5} n =
     (if n < 1 then Inl ValueError else Inr ({Sid 2, Sid 3 :: int kept_stmt}, {1}))"
  by (auto simp: get_filtered_db_stmts_def sample_query sample_groupby sample_choose_linked
      sample_choose_single Let_def)

lemma sample_distill:
  "distill_stmts hd hd sample_lib sample_db False (\<lambda>r. True) 4 ''duplicates.pkl'' True 1000 =
     Inr ({Sid 2, Sid 3, Sid 5}, sample_db, Some {1, 4})"
proof -
  have l: "linked_sids_of sample_db ''duplicates.pkl'' = {2, 5}"
    by (simp add: linked_sids_of_def sample_db_def)
  have f: "from_json sample_lib = (\<lambda>j. j)" by (simp add: sample_lib_def)
  show ?thesis
    by (simp add: distill_stmts_def sample_reading_dict l f sample_rdg sample_db_stmts
        distill_stages_def Let_def insert_commute)
qed

text \<open>
  C4. The duplicates that either filtering stage reports hold no linked id. In
  \<^verbatim>\<open>distill_stmts\<close>, an intersection after the first stage, or after the second, stops the run
  with an assertion error; a run that returns has passed both checks; and since the stages
  report no linked id, neither assertion ever fails.
\<close>

theorem linked_duplicates_disjoint:
  "(get_filtered_rdg_stmts pop stmt_nd full linked ign = Inr (stmts, dups, bett) \<longrightarrow>
      linked \<inter> dups = {}) \<and>
   (get_filtered_db_stmts pop_row fj db full clauses linked n = Inr (db_stmts, db_dups) \<longrightarrow>
      linked \<inter> db_dups = {}) \<and>
   (linked \<inter> dups1 \<noteq> {} \<longrightarrow>
      distill_stages linked (Inr (stmts1, dups1, bett1)) db_result db hdup weed bs =
        Inl (AssertionError LinkedDuplicate)) \<and>
   (linked \<inter> (dups2 \<union> db_dups2) \<noteq> {} \<longrightarrow>
      distill_stages linked (Inr (stmts2, dups2, bett2)) (Inr (db_stmts2, db_dups2)) db hdup weed bs =
        Inl (AssertionError LinkedDuplicate)) \<and>
   (distill_stages linked rdg_result db_result db hdup weed bs = Inr r \<longrightarrow>
      (\<exists>rdg_stmts rdg_dups rdg_bett dbs dbd.
         rdg_result = Inr (rdg_stmts, rdg_dups, rdg_bett) \<and> linked \<inter> rdg_dups = {} \<and>
         db_result = Inr (dbs, dbd) \<and> linked \<inter> (rdg_dups \<union> dbd) = {})) \<and>
   distill_stmts pop pop_row lib db full clauses n hdup weed bs \<noteq>
     Inl (AssertionError LinkedDuplicate)"
proof (intro conjI impI)
  assume "get_filtered_rdg_stmts pop stmt_nd full linked ign = Inr (stmts, dups, bett)"
  then show "linked \<inter> dups = {}" by (rule get_filtered_rdg_stmts_unlinked)
next
  assume "get_filtered_db_stmts pop_row fj db full clauses linked n = Inr (db_stmts, db_dups)"
  then show "linked \<inter> db_dups = {}" by (rule get_filtered_db_stmts_unlinked)
next
  assume "linked \<inter> dups1 \<noteq> {}"
  then show "distill_stages linked (Inr (stmts1, dups1, bett1)) db_result db hdup weed bs =
        Inl (AssertionError LinkedDuplicate)"
    by (simp add: distill_stages_def)
next
  assume "linked \<inter> (dups2 \<union> db_dups2) \<noteq> {}"
  then show "distill_stages linked (Inr (stmts2, dups2, bett2)) (Inr (db_stmts2, db_dups2)) db
        hdup weed bs = Inl (AssertionError LinkedDuplicate)"
    by (simp add: distill_stages_def Let_def)
next
  assume "distill_stages linked rdg_result db_result db hdup weed bs = Inr r"
  then show "\<exists>rdg_stmts rdg_dups rdg_bett dbs dbd.
         rdg_result = Inr (rdg_stmts, rdg_dups, rdg_bett) \<and> linked \<inter> rdg_dups = {} \<and>
         db_result = Inr (dbs, dbd) \<and> linked \<inter> (rdg_dups \<union> dbd) = {}"
    by (rule distill_stages_Inr)
next
  show "distill_stmts pop pop_row lib db full clauses n hdup weed bs \<noteq>
     Inl (AssertionError LinkedDuplicate)"
    by (rule distill_stmts_no_assert)
qed

theorem linked_duplicates_disjoint_witness:
  "get_filtered_rdg_stmts hd sample_nd False {2, 5} False = Inr ({Sid 5}, {4}, {}) \<and>
   {2, 5} \<inter> {4 :: int} = {} \<and>
   get_filtered_db_stmts hd (\<lambda>j. j) sample_db False (\<lambda>r. True) {2, 5} 4 =
     Inr ({Sid 2, Sid 3 :: int kept_stmt}, {1}) \<and>
   {2, 5} \<inter> {1 :: int} = {} \<and>
   distill_stages {2, 4} (Inr ({Sid 5 :: int kept_stmt}, {4}, {})) (Inl ValueError) sample_db
     ''delete'' True 1000 = Inl (AssertionError LinkedDuplicate) \<and>
   distill_stages {1, 5} (Inr ({Sid 5 :: int kept_stmt}, {4}, {})) (Inr ({Sid 2, Sid 3}, {1}))
     sample_db ''delete'' True 1000 = Inl (AssertionError LinkedDuplicate) \<and>
   distill_stmts hd hd sample_lib sample_db False (\<lambda>r. True) 4 ''duplicates.pkl'' True 1000 =
     Inr ({Sid 2, Sid 3, Sid 5}, sample_db, Some {1, 4})"
proof -
  note spec = linked_duplicates_disjoint
    [of hd sample_nd False "{2, 5}" False "{Sid 5}" "{4}" "{}"
        hd "\<lambda>j. j" sample_db "\<lambda>r. True" 4 "{Sid 2, Sid 3}" "{1}"]
  have rdg: "get_filtered_rdg_stmts hd sample_nd False {2, 5} False =
      Inr ({Sid 5 :: int kept_stmt}, {4}, {})"
    by (rule sample_rdg)
  have dbs: "get_filtered_db_stmts hd (\<lambda>j. j) sample_db False (\<lambda>r. True) {2, 5} 4 =
     Inr ({Sid 2, Sid 3 :: int kept_stmt}, {1})"
    by (simp add: sample_db_stmts)
  from spec [THEN conjunct1, THEN mp, OF rdg]
  have 1: "{2, 5} \<inter> {4 :: int} = {}" .
  from spec [THEN conjunct2, THEN conjunct1, THEN mp, OF dbs]
  have 2: "{2, 5} \<inter> {1 :: int} = {}" .
  have 3: "distill_stages {2, 4} (Inr ({Sid 5 :: int kept_stmt}, {4}, {})) (Inl ValueError)
     sample_db ''delete'' True 1000 = Inl (AssertionError LinkedDuplicate)"
    by (rule linked_duplicates_disjoint [THEN conjunct2, THEN conjunct2, THEN conjunct1, THEN mp])
       simp
  have 4: "distill_stages {1, 5} (Inr ({Sid 5 :: int kept_stmt}, {4}, {}))
     (Inr ({Sid 2, Sid 3}, {1})) sample_db ''delete'' True 1000 =
     Inl (AssertionError LinkedDuplicate)"
    by (rule linked_duplicates_disjoint
          [THEN conjunct2, THEN conjunct2, THEN conjunct2, THEN conjunct1, THEN mp])
       simp
  from rdg 1 dbs 2 3 4 sample_distill show ?thesis by (intro conjI)
qed

end
